theory Spec2Isabelle
  imports Main "HOL-Library.Word"
begin

section \<open>Tokens, entry values, entries and dictionaries\<close>

text \<open>
  The reader of \<^verbatim>\<open>vtkOpenFOAMReader.cxx\<close> works on a tagged union: \<^verbatim>\<open>vtkFoamToken\<close> holds
  the atomic alternatives and \<^verbatim>\<open>vtkFoamEntryValue\<close> adds the containers. The tag is the enum
  \<^verbatim>\<open>vtkFoamToken::tokenType\<close>; the payload of each alternative is the constructor argument
  here. Labels (\<^verbatim>\<open>vtkTypeInt64\<close>) are integers; the floating-point payload is the type
  parameter \<open>'f\<close>, so nothing below depends on floating-point arithmetic.
\<close>

datatype tokenType =
    UNDEFINED | PUNCTUATION | LABEL | SCALAR | STRING | IDENTIFIER
  | STRINGLIST | LABELLIST | SCALARLIST | VECTORLIST
  | LABELLISTLIST | ENTRYVALUELIST | BOOLLIST | EMPTYLIST | DICTIONARY
  | TOKEN_ERROR

datatype 'f vtkFoamToken =
    UndefinedTok
  | PunctuationTok char
  | LabelTok int
  | ScalarTok 'f
  | StringTok string
  | IdentifierTok string
  | ErrorTok

datatype 'f vtkFoamEntryValue =
    EntryValue (IsUniformEntry: bool) (Payload: "'f valueData")
and 'f valueData =
    Atom "'f vtkFoamToken"
  | StringListD "string list"
  | LabelListD "int list"
  | ScalarListD "'f list"
  | VectorListD nat "'f list"
  | LabelListListD "int list" "int option list"
  | EntryValueListD "'f vtkFoamEntryValue list"
  | BoolListD "int list"
  | EmptyListD
  | DictionaryD "'f vtkFoamDict"
and 'f vtkFoamEntry =
    Entry (Keyword: string) (Values: "'f vtkFoamEntryValue list")
and 'f vtkFoamDict =
    Dict (Token: "'f vtkFoamToken") (Entries: "'f vtkFoamEntry list")

fun TokGetType :: "'f vtkFoamToken \<Rightarrow> tokenType" where
  "TokGetType UndefinedTok = UNDEFINED"
| "TokGetType (PunctuationTok c) = PUNCTUATION"
| "TokGetType (LabelTok n) = LABEL"
| "TokGetType (ScalarTok x) = SCALAR"
| "TokGetType (StringTok s) = STRING"
| "TokGetType (IdentifierTok s) = IDENTIFIER"
| "TokGetType ErrorTok = TOKEN_ERROR"

section \<open>Dictionary lookup\<close>

text \<open>
  \<^verbatim>\<open>vtkFoamDict::Lookup\<close> returns a pointer into the dictionary's vector of entries, or null.
  The pointer is modelled by the position of the entry in the vector. The regular-expression
  engine (\<^verbatim>\<open>vtksys::RegularExpression\<close>) is not part of the reader; the whole test
  \<^verbatim>\<open>rex.compile(key) && rex.find(keyword) && rex.start(0) == 0 && rex.end(0) == keyword.size()\<close>
  is the parameter \<open>rex\<close>, applied to the entry's keyword and the search string.
  The loop keeps the position \<open>i\<close> and \<^verbatim>\<open>lastMatch\<close> (\<open>-1\<close> for none).
\<close>

fun Lookup_loop ::
  "(string \<Rightarrow> string \<Rightarrow> bool) \<Rightarrow> 'f vtkFoamEntry list \<Rightarrow> string \<Rightarrow> bool \<Rightarrow> nat \<Rightarrow> int \<Rightarrow> nat option"
where
  "Lookup_loop rex [] keyword regex i lastMatch =
     (if lastMatch \<ge> 0 then Some (nat lastMatch) else None)"
| "Lookup_loop rex (e # es) keyword regex i lastMatch =
     (if Keyword e = keyword then Some i
      else if regex \<and> rex (Keyword e) keyword
        then Lookup_loop rex es keyword regex (Suc i) (int i)
      else Lookup_loop rex es keyword regex (Suc i) lastMatch)"

definition Lookup ::
  "(string \<Rightarrow> string \<Rightarrow> bool) \<Rightarrow> 'f vtkFoamDict \<Rightarrow> string \<Rightarrow> bool \<Rightarrow> nat option"
where
  "Lookup rex d keyword regex =
     (if TokGetType (Token d) = UNDEFINED
      then Lookup_loop rex (Entries d) keyword regex 0 (-1)
      else None)"

text \<open>A concrete dictionary and matcher on which the lookup is evaluated.\<close>

definition rex0 :: "string \<Rightarrow> string \<Rightarrow> bool" where
  "rex0 key s = (key = ''.*'' \<or> key = ''in.*'' \<and> take 2 s = ''in'')"

definition dict0 :: "unit vtkFoamDict" where
  "dict0 = Dict UndefinedTok
     [Entry ''type'' [], Entry ''.*'' [], Entry ''in.*'' [], Entry ''inlet'' [], Entry ''type'' []]"

section \<open>Boundary patches: \<^verbatim>\<open>vtkFoamBoundaries::update\<close> and \<^verbatim>\<open>whichPatch\<close>\<close>

text \<open>
  \<^verbatim>\<open>vtkIdType\<close> and \<^verbatim>\<open>vtkTypeInt64\<close> are signed 64-bit integers (\<^verbatim>\<open>vtkIdType\<close> with the
  default \<^verbatim>\<open>VTK_USE_64BIT_IDS\<close>). Their values are kept as \<open>int\<close>; a value stored in such a
  variable and the result of an addition are reduced to the range from \<open>-2^63\<close> to
  \<open>2^63 - 1\<close> the way two's complement arithmetic wraps around.
\<close>

definition vtkIdType :: "int \<Rightarrow> int" where
  "vtkIdType x = (x + 9223372036854775808) mod 18446744073709551616 - 9223372036854775808"

datatype patchType = GEOMETRICAL | PHYSICAL | PROCESSOR

text \<open>
  The fields of \<^verbatim>\<open>vtkFoamPatch\<close> are \<^verbatim>\<open>name_\<close>, \<^verbatim>\<open>index_\<close>, \<^verbatim>\<open>start_\<close>, \<^verbatim>\<open>size_\<close>,
  \<^verbatim>\<open>offset_\<close> and \<^verbatim>\<open>type_\<close>; a name cannot end with an underscore here, so the fields carry
  the prefix \<open>patch_\<close> instead.
\<close>

record vtkFoamPatch =
  patch_name :: string
  patch_index :: int
  patch_start :: int
  patch_size :: int
  patch_offset :: int
  patch_type :: patchType

definition startFace :: "vtkFoamPatch \<Rightarrow> int" where
  "startFace p = patch_start p"

definition endFace :: "vtkFoamPatch \<Rightarrow> int" where
  "endFace p = vtkIdType (patch_start p + patch_size p)"

text \<open>The default-constructed patch, as \<^verbatim>\<open>resize\<close> creates it.\<close>

definition defaultPatch :: vtkFoamPatch where
  "defaultPatch = \<lparr>patch_name = [], patch_index = 0, patch_start = 0, patch_size = 0, patch_offset = 0,
     patch_type = GEOMETRICAL\<rparr>"

text \<open>
  The error stream of the collection holds at most one message; the messages are the
  constructors, with the values the source prints.
\<close>

datatype boundaryError =
    NoError
  | NoTypeEntry string
  | NoStartFaceEntry string
  | NoNFacesEntry string
  | NegativeStartOrSize int int string
  | InconsistentEndFace int string int string

record vtkFoamBoundaries =
  patches :: "vtkFoamPatch list"
  error_msg :: boundaryError

text \<open>
  \<^verbatim>\<open>vtkFoamEntryValue::ToString\<close> and \<^verbatim>\<open>ToInt\<close> give the empty string and zero for a value of
  another type; \<^verbatim>\<open>vtkFoamEntry::ToString\<close> and \<^verbatim>\<open>ToInt\<close> read the first value and give the
  same defaults for an entry without values.
\<close>

fun ValueToString :: "'f vtkFoamEntryValue \<Rightarrow> string" where
  "ValueToString (EntryValue u (Atom (StringTok s))) = s"
| "ValueToString v = []"

fun ValueToInt :: "'f vtkFoamEntryValue \<Rightarrow> int" where
  "ValueToInt (EntryValue u (Atom (LabelTok n))) = n"
| "ValueToInt v = 0"

definition EntryToString :: "'f vtkFoamEntry \<Rightarrow> string" where
  "EntryToString e = (case Values e of [] \<Rightarrow> [] | v # vs \<Rightarrow> ValueToString v)"

definition EntryToInt :: "'f vtkFoamEntry \<Rightarrow> int" where
  "EntryToInt e = (case Values e of [] \<Rightarrow> 0 | v # vs \<Rightarrow> ValueToInt v)"

text \<open>
  \<^verbatim>\<open>patchDict.Lookup(keyword)\<close> with the default \<^verbatim>\<open>regex = false\<close>; the entry found, or
  \<open>None\<close> for the null pointer.
\<close>

definition LookupEntry :: "'f vtkFoamDict \<Rightarrow> string \<Rightarrow> 'f vtkFoamEntry option" where
  "LookupEntry d keyword =
     (case Lookup (\<lambda>key s. False) d keyword False of
        None \<Rightarrow> None
      | Some i \<Rightarrow> Some (Entries d ! i))"

text \<open>
  The boundary file is a list of dictionaries: entry \<open>patchi\<close> of the parsed dictionary has
  the patch name as its keyword and one value, the patch dictionary. \<^verbatim>\<open>update\<close> reads
  \<^verbatim>\<open>dict[patchi]->GetKeyword()\<close> and \<^verbatim>\<open>dict[patchi]->Dictionary()\<close>; these two are the
  components of the pairs below. The loop carries \<^verbatim>\<open>endFace\<close> (initially \<open>-1\<close>) and
  \<^verbatim>\<open>nBoundaryFaces\<close>. The owner flag of processor patches and the \<^verbatim>\<open>inGroups\<close> map,
  which are written after all checks of a patch and never read by them, are left out.
\<close>

fun update_loop ::
  "(string \<times> 'f vtkFoamDict) list \<Rightarrow> nat \<Rightarrow> int \<Rightarrow> int \<Rightarrow> vtkFoamBoundaries
   \<Rightarrow> bool \<times> vtkFoamBoundaries"
where
  "update_loop [] patchi endFaceV nBoundaryFaces b = (True, b)"
| "update_loop ((patchName, patchDict) # rest) patchi endFaceV nBoundaryFaces b =
     (let patch0 = (patches b ! patchi)\<lparr>patch_index := int patchi, patch_offset := nBoundaryFaces,
                      patch_type := GEOMETRICAL, patch_name := patchName\<rparr>
      in case LookupEntry patchDict ''type'' of
        None \<Rightarrow> (False, b\<lparr>patches := (patches b)[patchi := patch0],
                           error_msg := NoTypeEntry patchName\<rparr>)
      | Some te \<Rightarrow>
     (let patchTypeName = EntryToString te
      in case LookupEntry patchDict ''startFace'' of
        None \<Rightarrow> (False, b\<lparr>patches := (patches b)[patchi := patch0],
                           error_msg := NoStartFaceEntry patchName\<rparr>)
      | Some se \<Rightarrow>
     (let patch1 = patch0\<lparr>patch_start := vtkIdType (EntryToInt se)\<rparr>
      in case LookupEntry patchDict ''nFaces'' of
        None \<Rightarrow> (False, b\<lparr>patches := (patches b)[patchi := patch1],
                           error_msg := NoNFacesEntry patchName\<rparr>)
      | Some ne \<Rightarrow>
     (let patch2 = patch1\<lparr>patch_size := vtkIdType (EntryToInt ne)\<rparr>
      in if patch_start patch2 < 0 \<or> patch_size patch2 < 0
         then (False, b\<lparr>patches := (patches b)[patchi := patch2],
                 error_msg := NegativeStartOrSize (patch_start patch2) (patch_size patch2) patchName\<rparr>)
         else if endFaceV \<ge> 0 \<and> endFaceV \<noteq> patch_start patch2
         then (False, b\<lparr>patches := (patches b)[patchi := patch2],
                 error_msg := InconsistentEndFace (endFaceV - 1) (patch_name (patches b ! (patchi - 1)))
                             (patch_start patch2) patchName\<rparr>)
         else
           (let physical = (patchTypeName = ''patch'' \<or> patchTypeName = ''wall''
                              \<or> patchTypeName = ''mappedWall'');
                processor = (patchTypeName = ''processor'' \<or> patchTypeName = ''processorCyclic'');
                patch3 = patch2\<lparr>patch_type := (if physical then PHYSICAL
                                             else if processor then PROCESSOR
                                             else GEOMETRICAL)\<rparr>;
                nBoundaryFaces' = (if physical \<or> processor
                                   then vtkIdType (nBoundaryFaces + patch_size patch2)
                                   else nBoundaryFaces)
            in update_loop rest (Suc patchi) (endFace patch2) nBoundaryFaces'
                 (b\<lparr>patches := (patches b)[patchi := patch3]\<rparr>))))))"

definition update :: "(string \<times> 'f vtkFoamDict) list \<Rightarrow> bool \<times> vtkFoamBoundaries" where
  "update dict =
     update_loop dict 0 (-1) 0
       \<lparr>patches = replicate (length dict) defaultPatch, error_msg = NoError\<rparr>"


definition dictStartFace :: "'f vtkFoamDict \<Rightarrow> int" where
  "dictStartFace d =
     (case LookupEntry d ''startFace'' of None \<Rightarrow> 0 | Some e \<Rightarrow> vtkIdType (EntryToInt e))"

definition dictNFaces :: "'f vtkFoamDict \<Rightarrow> int" where
  "dictNFaces d =
     (case LookupEntry d ''nFaces'' of None \<Rightarrow> 0 | Some e \<Rightarrow> vtkIdType (EntryToInt e))"

definition dictEndFace :: "'f vtkFoamDict \<Rightarrow> int" where
  "dictEndFace d = vtkIdType (dictStartFace d + dictNFaces d)"


text \<open>
  The binary search of \<^verbatim>\<open>whichPatch\<close>: \<open>first\<close> is the position of the iterator
  \<^verbatim>\<open>first\<close> in the vector, \<open>count\<close> the remaining length.
\<close>

function whichPatch_loop :: "vtkFoamPatch list \<Rightarrow> int \<Rightarrow> nat \<Rightarrow> nat \<Rightarrow> nat" where
  "whichPatch_loop ps faceIndex first count =
     (if count > 0 then
        (let step = count div 2; iter = first + step
         in if patch_start (ps ! iter) \<le> faceIndex
            then whichPatch_loop ps faceIndex (Suc iter) (count - (step + 1))
            else whichPatch_loop ps faceIndex first step)
      else first)"
  by pat_completeness auto
termination
  by (relation "measure (\<lambda>(ps, faceIndex, first, count). count)") auto

declare whichPatch_loop.simps [simp del]

definition whichPatch :: "vtkFoamPatch list \<Rightarrow> int \<Rightarrow> int" where
  "whichPatch ps faceIndex =
     (if ps = [] \<or> faceIndex < startFace (hd ps) \<or> faceIndex \<ge> endFace (last ps)
      then -1
      else (let first = whichPatch_loop ps faceIndex 0 (length ps)
            in if first \<noteq> length ps then patch_index (ps ! first) else -1))"

text \<open>
  The boundary file of the spec's scenario: two patches, faces 0 to 9 and faces 10 to 14;
  and the same file with the second patch starting at face 11.
\<close>

definition patchDict0 :: "string \<Rightarrow> int \<Rightarrow> int \<Rightarrow> unit vtkFoamDict" where
  "patchDict0 ty s n = Dict UndefinedTok
     [Entry ''type'' [EntryValue False (Atom (StringTok ty))],
      Entry ''nFaces'' [EntryValue False (Atom (LabelTok n))],
      Entry ''startFace'' [EntryValue False (Atom (LabelTok s))]]"


definition boundary1 :: "(string \<times> unit vtkFoamDict) list" where
  "boundary1 = [(''inlet'', patchDict0 ''patch'' 0 10), (''walls'', patchDict0 ''wall'' 11 5)]"


definition patches0 :: "vtkFoamPatch list" where
  "patches0 =
     [\<lparr>patch_name = ''inlet'', patch_index = 0, patch_start = 0, patch_size = 10, patch_offset = 0, patch_type = PHYSICAL\<rparr>,
      \<lparr>patch_name = ''walls'', patch_index = 1, patch_start = 10, patch_size = 5, patch_offset = 10, patch_type = PHYSICAL\<rparr>]"


section \<open>Field data: \<^verbatim>\<open>vtkFoamTypes\<close> and \<^verbatim>\<open>FillField\<close>\<close>

text \<open>
  \<^verbatim>\<open>vtkFoamTypes::dataType\<close> encodes the number of components in the lower four bits of the
  enumerator's value.
\<close>

datatype dataType =
    NO_TYPE | LABEL_TYPE | SCALAR_TYPE | VECTOR_TYPE | SYMM_TENSOR_TYPE | TENSOR_TYPE
  | SPH_TENSOR_TYPE

fun dataTypeValue :: "dataType \<Rightarrow> nat" where
  "dataTypeValue NO_TYPE = 0"
| "dataTypeValue LABEL_TYPE = 17"
| "dataTypeValue SCALAR_TYPE = 1"
| "dataTypeValue VECTOR_TYPE = 3"
| "dataTypeValue SYMM_TENSOR_TYPE = 6"
| "dataTypeValue TENSOR_TYPE = 9"
| "dataTypeValue SPH_TENSOR_TYPE = 33"

definition GetNumberOfComponents :: "dataType \<Rightarrow> nat" where
  "GetNumberOfComponents dtype = dataTypeValue dtype mod 16"

definition IsScalar :: "dataType \<Rightarrow> bool" where
  "IsScalar dtype = (dtype = SCALAR_TYPE)"

definition IsVectorSpace :: "dataType \<Rightarrow> bool" where
  "IsVectorSpace dtype = (GetNumberOfComponents dtype > 1 \<or> dtype = SPH_TENSOR_TYPE)"

text \<open>The tag of an entry value (\<^verbatim>\<open>GetType()\<close>).\<close>

fun GetType :: "'f vtkFoamEntryValue \<Rightarrow> tokenType" where
  "GetType (EntryValue u (Atom t)) = TokGetType t"
| "GetType (EntryValue u (StringListD xs)) = STRINGLIST"
| "GetType (EntryValue u (LabelListD xs)) = LABELLIST"
| "GetType (EntryValue u (ScalarListD xs)) = SCALARLIST"
| "GetType (EntryValue u (VectorListD n xs)) = VECTORLIST"
| "GetType (EntryValue u (LabelListListD os xs)) = LABELLISTLIST"
| "GetType (EntryValue u (EntryValueListD vs)) = ENTRYVALUELIST"
| "GetType (EntryValue u (BoolListD xs)) = BOOLLIST"
| "GetType (EntryValue u EmptyListD) = EMPTYLIST"
| "GetType (EntryValue u (DictionaryD d)) = DICTIONARY"

text \<open>
  A \<^verbatim>\<open>vtkFloatArray\<close>: the number of components of a tuple and the flat sequence of values;
  tuple \<open>i\<close> occupies the positions \<open>n * i, ..., n * i + n - 1\<close>.
\<close>

record 'f vtkFloatArray =
  NumberOfComponents :: nat
  FloatValues :: "'f list"

definition GetNumberOfTuples :: "'f vtkFloatArray \<Rightarrow> nat" where
  "GetNumberOfTuples a = length (FloatValues a) div NumberOfComponents a"

definition GetTuple :: "'f vtkFloatArray \<Rightarrow> nat \<Rightarrow> 'f list" where
  "GetTuple a i = take (NumberOfComponents a) (drop (NumberOfComponents a * i) (FloatValues a))"

text \<open>\<^verbatim>\<open>std::swap(tuple[i], tuple[j])\<close> on the values of an array.\<close>

definition std_swap :: "nat \<Rightarrow> nat \<Rightarrow> 'a list \<Rightarrow> 'a list" where
  "std_swap i j xs = (xs[i := xs ! j])[j := xs ! i]"

text \<open>
  The two swaps of the symmTensor remap, applied to the tuple that starts at position
  \<open>base\<close>: \<^verbatim>\<open>std::swap(tuple[1], tuple[3]); std::swap(tuple[2], tuple[5]);\<close>
\<close>

definition remapSymmTensor :: "nat \<Rightarrow> 'a list \<Rightarrow> 'a list" where
  "remapSymmTensor base xs = std_swap (base + 2) (base + 5) (std_swap (base + 1) (base + 3) xs)"

text \<open>The loop over the tuples of a nonuniform list, \<open>tuplei = 0, ..., nTuples - 1\<close>.\<close>

fun remapTuples :: "nat \<Rightarrow> nat \<Rightarrow> nat \<Rightarrow> 'a list \<Rightarrow> 'a list" where
  "remapTuples nComponents tuplei 0 xs = xs"
| "remapTuples nComponents tuplei (Suc k) xs =
     remapTuples nComponents (Suc tuplei) k (remapSymmTensor (nComponents * tuplei) xs)"

text \<open>
  The conversions to \<^verbatim>\<open>float\<close> are parameters: \<open>ofLabel\<close> is
  \<^verbatim>\<open>static_cast<float>\<close> of a label, \<open>ofDouble\<close> of a \<^verbatim>\<open>double\<close>.
\<close>

record 'f floatConv =
  ofLabel :: "int \<Rightarrow> 'f"
  ofDouble :: "'f \<Rightarrow> 'f"
  zeroF :: "'f"

text \<open>\<^verbatim>\<open>vtkFoamEntryValue::ToFloat\<close>: the numeric value, or zero for any other type.\<close>

fun ToFloat :: "'f floatConv \<Rightarrow> 'f vtkFoamEntryValue \<Rightarrow> 'f" where
  "ToFloat cv (EntryValue u (Atom (LabelTok n))) = ofLabel cv n"
| "ToFloat cv (EntryValue u (Atom (ScalarTok x))) = ofDouble cv x"
| "ToFloat cv v = zeroF cv"

text \<open>
  \<^verbatim>\<open>FillField\<close> returns the array, or a null pointer after reporting an error. Two
  situations in which the source reads or writes outside an object are results of their own:
  an entry without any value (\<^verbatim>\<open>FirstValue()\<close> dereferences element 0), and a uniform label
  list of more than nine labels (copied into \<^verbatim>\<open>float tupleBuffer[9]\<close>).
\<close>

datatype fillError =
    WrongListType | ComponentMismatch | SizeMismatch | NotValidField
  | NoFirstValue | TupleBufferOverrun

definition FillUniformTuple ::
  "nat \<Rightarrow> 'f list \<Rightarrow> int \<Rightarrow> dataType \<Rightarrow> fillError + 'f vtkFloatArray"
where
  "FillUniformTuple nComponents tuple nElements fieldDataType =
     (if GetNumberOfComponents fieldDataType = nComponents \<and> IsVectorSpace fieldDataType
      then
        let tuple' = (if nComponents = 6 then remapSymmTensor 0 tuple else tuple)
        in Inr \<lparr>NumberOfComponents = nComponents,
                FloatValues = concat (replicate (nat nElements) tuple')\<rparr>
      else Inl ComponentMismatch)"

definition FillNonuniform ::
  "nat \<Rightarrow> 'f list \<Rightarrow> int \<Rightarrow> fillError + 'f vtkFloatArray"
where
  "FillNonuniform nComponents values nElements =
     (let nTuples = length values div nComponents in
      if int nTuples \<noteq> nElements then Inl SizeMismatch
      else Inr \<lparr>NumberOfComponents = nComponents,
                FloatValues = (if nComponents = 6 then remapTuples nComponents 0 nTuples values
                               else values)\<rparr>)"

fun FillField ::
  "'f floatConv \<Rightarrow> 'f vtkFoamEntry \<Rightarrow> int \<Rightarrow> dataType \<Rightarrow> fillError + 'f vtkFloatArray"
where
  "FillField cv (Entry keyword []) nElements fieldDataType = Inl NoFirstValue"
| "FillField cv (Entry keyword (v # vs)) nElements fieldDataType =
     (if IsUniformEntry v then
        (if GetType v = SCALAR \<or> GetType v = LABEL
         then Inr \<lparr>NumberOfComponents = 1,
                   FloatValues = replicate (nat nElements) (ToFloat cv v)\<rparr>
         else
           (case Payload v of
              LabelListD ll \<Rightarrow>
                (if length ll > 9 then Inl TupleBufferOverrun
                 else FillUniformTuple (length ll) (map (ofLabel cv) ll) nElements fieldDataType)
            | ScalarListD sl \<Rightarrow> FillUniformTuple (length sl) sl nElements fieldDataType
            | _ \<Rightarrow> Inl WrongListType))
      else
        (case Payload v of
           ScalarListD sl \<Rightarrow>
             (if IsScalar fieldDataType then FillNonuniform 1 sl nElements
              else Inl NotValidField)
         | VectorListD n vl \<Rightarrow>
             (if IsVectorSpace fieldDataType then FillNonuniform n vl nElements
              else Inl NotValidField)
         | EmptyListD \<Rightarrow>
             (if nElements \<le> 0
              then Inr \<lparr>NumberOfComponents =
                          (if GetNumberOfComponents fieldDataType > 0
                           then GetNumberOfComponents fieldDataType else 1),
                        FloatValues = []\<rparr>
              else Inl NotValidField)
         | _ \<Rightarrow> Inl NotValidField))"

text \<open>An entry holding a nonuniform symmTensor list of two tuples, and a uniform one.\<close>

definition symmField0 :: "int vtkFoamEntry" where
  "symmField0 = Entry ''internalField''
     [EntryValue False (VectorListD 6 [11, 12, 13, 22, 23, 33, 110, 120, 130, 220, 230, 330])]"

definition symmUniform0 :: "int vtkFoamEntry" where
  "symmUniform0 = Entry ''internalField'' [EntryValue True (ScalarListD [11, 12, 13, 22, 23, 33])]"

definition conv0 :: "int floatConv" where
  "conv0 = \<lparr>ofLabel = (\<lambda>n. n), ofDouble = (\<lambda>x. x), zeroF = 0\<rparr>"

text \<open>
  The tuple of element \<open>i\<close> as the entry holds it before \<^verbatim>\<open>FillField\<close> runs: the one tuple
  of a uniform entry (a label list converted to \<^verbatim>\<open>float\<close>, or a scalar list), or tuple \<open>i\<close>
  of a nonuniform vector list.
\<close>

fun sourceTuple :: "'f floatConv \<Rightarrow> 'f vtkFoamEntryValue \<Rightarrow> nat \<Rightarrow> 'f list" where
  "sourceTuple cv (EntryValue True (LabelListD ll)) i = map (ofLabel cv) ll"
| "sourceTuple cv (EntryValue True (ScalarListD sl)) i = sl"
| "sourceTuple cv (EntryValue False (VectorListD n vl)) i = take n (drop (n * i) vl)"
| "sourceTuple cv v i = []"

section \<open>Reading a list of label lists: \<^verbatim>\<open>ReadLabelListList\<close>\<close>

text \<open>
  \<^verbatim>\<open>vtkFoamLabelListListImpl\<close> holds two arrays, the offsets and the packed data. A VTK array
  is modelled by the list of its values up to \<^verbatim>\<open>MaxId\<close>; a position that was allocated
  but never written is \<open>None\<close>. The array operations that the reader calls are those of
  \<^verbatim>\<open>vtkAOSDataArrayTemplate\<close>, which is not among the reader's sources; they are modelled
  after their documented behaviour: \<^verbatim>\<open>SetNumberOfValues\<close> allocates without initialising,
  \<^verbatim>\<open>WritePointer(id, n)\<close> and \<^verbatim>\<open>InsertValue(id, v)\<close> extend the array when needed,
  \<^verbatim>\<open>Resize(n)\<close> truncates to \<open>n\<close> values and never raises \<^verbatim>\<open>MaxId\<close>.
\<close>

record vtkFoamLabelListList =
  Offsets :: "int option list"
  Data :: "int option list"

definition padTo :: "nat \<Rightarrow> int option list \<Rightarrow> int option list" where
  "padTo n xs = xs @ replicate (n - length xs) None"

definition GetNumberOfElements :: "vtkFoamLabelListList \<Rightarrow> int" where
  "GetNumberOfElements l = int (length (Offsets l)) - 1"

definition ResizeExact :: "int \<Rightarrow> int \<Rightarrow> vtkFoamLabelListList" where
  "ResizeExact numElem numValues =
     \<lparr>Offsets = (replicate (nat (numElem + 1)) None)[0 := Some 0],
      Data = replicate (nat numValues) None\<rparr>"

definition ResizeData :: "int \<Rightarrow> vtkFoamLabelListList \<Rightarrow> vtkFoamLabelListList" where
  "ResizeData numValues l = l\<lparr>Data := take (nat numValues) (Data l)\<rparr>"

definition GetBeginOffset :: "vtkFoamLabelListList \<Rightarrow> nat \<Rightarrow> int option" where
  "GetBeginOffset l i = Offsets l ! i"

definition GetEndOffset :: "vtkFoamLabelListList \<Rightarrow> nat \<Rightarrow> int option" where
  "GetEndOffset l i = Offsets l ! (i + 1)"

definition GetSize :: "vtkFoamLabelListList \<Rightarrow> nat \<Rightarrow> int" where
  "GetSize l i = the (Offsets l ! (i + 1)) - the (Offsets l ! i)"

definition SetOffset :: "nat \<Rightarrow> int \<Rightarrow> vtkFoamLabelListList \<Rightarrow> vtkFoamLabelListList" where
  "SetOffset i val l = l\<lparr>Offsets := (Offsets l)[i := Some val]\<rparr>"

definition WritePointer ::
  "nat \<Rightarrow> int \<Rightarrow> int \<Rightarrow> vtkFoamLabelListList \<Rightarrow> vtkFoamLabelListList"
where
  "WritePointer cellId dataOffset subLength l =
     l\<lparr>Offsets := (Offsets l)[cellId := Some dataOffset],
       Data := padTo (nat (dataOffset + subLength)) (Data l)\<rparr>"

definition SetValue ::
  "nat \<Rightarrow> nat \<Rightarrow> int \<Rightarrow> vtkFoamLabelListList \<Rightarrow> vtkFoamLabelListList"
where
  "SetValue cellId subIndex val l =
     l\<lparr>Data := (Data l)[nat (the (Offsets l ! cellId)) + subIndex := Some val]\<rparr>"

definition InsertValue :: "int \<Rightarrow> int \<Rightarrow> vtkFoamLabelListList \<Rightarrow> vtkFoamLabelListList" where
  "InsertValue bodyIndex val l =
     l\<lparr>Data := (padTo (nat bodyIndex + 1) (Data l))[nat bodyIndex := Some val]\<rparr>"

text \<open>The values of sub-list \<open>i\<close>, as \<^verbatim>\<open>GetCell\<close> copies them.\<close>

definition GetCell :: "vtkFoamLabelListList \<Rightarrow> nat \<Rightarrow> int option list" where
  "GetCell l i =
     map (\<lambda>k. Data l ! k) [nat (the (Offsets l ! i)) ..< nat (the (Offsets l ! (i + 1)))]"

text \<open>
  The input is the sequence of tokens that the tokenizer delivers for the rest of the file
  (ASCII format). \<^verbatim>\<open>io.Read\<close> takes the next token or reports the end of input;
  \<^verbatim>\<open>io.ReadExpecting(c)\<close> and \<^verbatim>\<open>ReadIntValue\<close> work on the characters of the file, and
  are modelled on the token they consume: the punctuation \<open>c\<close>, or a label. The errors
  are the exceptions of the source; \<^verbatim>\<open>ReadExpecting\<close> throws the unexpected-token
  exception, which names the expected character, also at the end of the input (the message
  then ends with \<^verbatim>\<open>found EOF\<close>), and \<^verbatim>\<open>ReadIntValue\<close> throws the unexpected-EOF exception
  there.
\<close>

datatype foamError =
    UnexpectedEOF
  | IllegalNegativeListLength int
  | ExpectedInteger
  | ExpectedIntegerFound
  | ExpectedIntegerOrParen
  | UnexpectedToken char
  | UnexpectedNondigit
  | ExpectedNumberStringOrParen
  | UnsupportedNonuniformListType

fun ReadExpecting :: "char \<Rightarrow> 'f vtkFoamToken list \<Rightarrow> foamError + 'f vtkFoamToken list" where
  "ReadExpecting c [] = Inl (UnexpectedToken c)"
| "ReadExpecting c (t # ts) = (if t = PunctuationTok c then Inr ts else Inl (UnexpectedToken c))"

fun ReadIntValue :: "'f vtkFoamToken list \<Rightarrow> foamError + (int \<times> 'f vtkFoamToken list)" where
  "ReadIntValue [] = Inl UnexpectedEOF"
| "ReadIntValue (LabelTok v # ts) = Inr (v, ts)"
| "ReadIntValue (t # ts) = Inl UnexpectedNondigit"

text \<open>\<^verbatim>\<open>currToken.To<int>()\<close>: the label cast to a 32-bit signed integer.\<close>

definition To_int32 :: "int \<Rightarrow> int" where
  "To_int32 v = sint (word_of_int v :: 32 word)"

text \<open>
  The loop over a size-prefixed sub-list:
  \<^verbatim>\<open>for (subIdx = 0; subIdx < sublistLen; ++subIdx) SetValue(idx, subIdx, ReadValue(io))\<close>;
  \<open>n\<close> is the number of values still to read.
\<close>

fun readSized ::
  "nat \<Rightarrow> nat \<Rightarrow> nat \<Rightarrow> 'f vtkFoamToken list \<Rightarrow> vtkFoamLabelListList
   \<Rightarrow> foamError + (vtkFoamLabelListList \<times> 'f vtkFoamToken list)"
where
  "readSized idx subIdx 0 ts l = Inr (l, ts)"
| "readSized idx subIdx (Suc n) ts l =
     (case ReadIntValue ts of
        Inl e \<Rightarrow> Inl e
      | Inr (v, ts') \<Rightarrow> readSized idx (Suc subIdx) n ts' (SetValue idx subIdx v l))"

text \<open>
  The loop over a token-delimited sub-list:
  \<^verbatim>\<open>while (io.Read(currToken) && currToken != ')') { ...
      InsertValue(nTotalElems++, currToken.To<int>()); ++nTotalElems; }\<close>
  The loop also ends, without an error, at the end of the input.
\<close>

fun readDelimited ::
  "int \<Rightarrow> 'f vtkFoamToken list \<Rightarrow> vtkFoamLabelListList
   \<Rightarrow> foamError + (vtkFoamLabelListList \<times> int \<times> 'f vtkFoamToken list)"
where
  "readDelimited nTotalElems [] l = Inr (l, nTotalElems, [])"
| "readDelimited nTotalElems (t # ts) l =
     (if t = PunctuationTok CHR '')'' then Inr (l, nTotalElems, ts)
      else (case t of
              LabelTok v \<Rightarrow>
                readDelimited (nTotalElems + 1 + 1) ts (InsertValue nTotalElems (To_int32 v) l)
            | _ \<Rightarrow> Inl ExpectedIntegerFound))"

text \<open>The loop over the sub-lists, \<open>idx = listLen - n, ..., listLen - 1\<close>.\<close>

fun readSublists ::
  "nat \<Rightarrow> nat \<Rightarrow> int \<Rightarrow> 'f vtkFoamToken list \<Rightarrow> vtkFoamLabelListList
   \<Rightarrow> foamError + (vtkFoamLabelListList \<times> int \<times> 'f vtkFoamToken list)"
where
  "readSublists idx 0 nTotalElems ts l = Inr (l, nTotalElems, ts)"
| "readSublists idx (Suc n) nTotalElems ts l =
     (case ts of
        [] \<Rightarrow> Inl UnexpectedEOF
      | LabelTok sublistLen # ts1 \<Rightarrow>
          (if sublistLen < 0 then Inl (IllegalNegativeListLength sublistLen)
           else
             (case ReadExpecting CHR ''('' ts1 of
                Inl e \<Rightarrow> Inl e
              | Inr ts2 \<Rightarrow>
                  (case readSized idx 0 (nat sublistLen) ts2
                          (WritePointer idx nTotalElems sublistLen l) of
                     Inl e \<Rightarrow> Inl e
                   | Inr (l', ts3) \<Rightarrow>
                       (case ReadExpecting CHR '')'' ts3 of
                          Inl e \<Rightarrow> Inl e
                        | Inr ts4 \<Rightarrow>
                            readSublists (Suc idx) n (nTotalElems + sublistLen) ts4 l'))))
      | t # ts1 \<Rightarrow>
          (if t = PunctuationTok CHR ''(''
           then (case readDelimited nTotalElems ts1 (SetOffset idx nTotalElems l) of
                   Inl e \<Rightarrow> Inl e
                 | Inr (l', nTotalElems', ts2) \<Rightarrow> readSublists (Suc idx) n nTotalElems' ts2 l')
           else Inl ExpectedIntegerOrParen))"

definition ReadLabelListList ::
  "'f vtkFoamToken list \<Rightarrow> foamError + (vtkFoamLabelListList \<times> 'f vtkFoamToken list)"
where
  "ReadLabelListList ts =
     (case ts of
        [] \<Rightarrow> Inl UnexpectedEOF
      | LabelTok listLen # ts1 \<Rightarrow>
          (if listLen < 0 then Inl (IllegalNegativeListLength listLen)
           else
             (case ReadExpecting CHR ''('' ts1 of
                Inl e \<Rightarrow> Inl e
              | Inr ts2 \<Rightarrow>
                  (case readSublists 0 (nat listLen) 0 ts2 (ResizeExact listLen (4 * listLen)) of
                     Inl e \<Rightarrow> Inl e
                   | Inr (l, nTotalElems, ts3) \<Rightarrow>
                       (case ReadExpecting CHR '')''
                               ts3 of
                          Inl e \<Rightarrow> Inl e
                        | Inr ts4 \<Rightarrow>
                            Inr (ResizeData nTotalElems (SetOffset (nat listLen) nTotalElems l),
                                 ts4)))))
      | t # ts1 \<Rightarrow> Inl ExpectedInteger)"

text \<open>
  The tokens of \<^verbatim>\<open>1 ( (5) )\<close>, one token-delimited sub-list, of \<^verbatim>\<open>1 ( 1 (5) )\<close>, the same
  list size-prefixed, and of \<^verbatim>\<open>2 ( (5 6) 1 (7) )\<close>.
\<close>

definition tokensDelimited :: "unit vtkFoamToken list" where
  "tokensDelimited = [LabelTok 1, PunctuationTok CHR ''('', PunctuationTok CHR ''('', LabelTok 5,
     PunctuationTok CHR '')'', PunctuationTok CHR '')'']"

definition tokensSized :: "unit vtkFoamToken list" where
  "tokensSized = [LabelTok 1, PunctuationTok CHR ''('', LabelTok 1, PunctuationTok CHR ''('',
     LabelTok 5, PunctuationTok CHR '')'', PunctuationTok CHR '')'']"

definition tokensMixed :: "unit vtkFoamToken list" where
  "tokensMixed = [LabelTok 2, PunctuationTok CHR ''('',
     PunctuationTok CHR ''('', LabelTok 5, LabelTok 6, PunctuationTok CHR '')'',
     LabelTok 1, PunctuationTok CHR ''('', LabelTok 7, PunctuationTok CHR '')'',
     PunctuationTok CHR '')'']"

section \<open>Reading the values of an entry: \<^verbatim>\<open>vtkFoamEntryValue::Read\<close> and
  \<^verbatim>\<open>vtkFoamEntry::Read\<close>\<close>

text \<open>
  The readers below work on the tokens of the rest of the file, as in the previous section.
  The readers of composite values that \<^verbatim>\<open>vtkFoamEntryValue::Read\<close> dispatches to are
  parameters: each is given the remaining tokens and returns what it built together with the
  number of tokens it consumed, or an error. They stand for \<^verbatim>\<open>ReadDictionary\<close> (after
  \<^verbatim>\<open>{\<close>), the branches of \<^verbatim>\<open>ReadList\<close> for a list that is not empty, \<^verbatim>\<open>ReadDimensionSet\<close>,
  and the list traits with which \<^verbatim>\<open>ReadNonuniformList\<close> reads the elements into a float
  array of a given number of components, a label array, or a byte array.
\<close>

record 'f subReaders =
  ReadDictionaryP :: "'f vtkFoamToken list \<Rightarrow> foamError + ('f vtkFoamDict \<times> nat)"
  ReadListP :: "'f vtkFoamToken list \<Rightarrow> foamError + ('f valueData \<times> nat)"
  ReadDimensionSetP :: "'f vtkFoamToken list \<Rightarrow> foamError + ('f list \<times> nat)"
  ReadFloatsP :: "nat \<Rightarrow> 'f vtkFoamToken list \<Rightarrow> foamError + ('f list \<times> nat)"
  ReadLabelsP :: "'f vtkFoamToken list \<Rightarrow> foamError + (int list \<times> nat)"
  ReadBoolsP :: "'f vtkFoamToken list \<Rightarrow> foamError + (int list \<times> nat)"

text \<open>
  \<^verbatim>\<open>ReadList\<close>, called after the opening parenthesis: the next token decides the kind of
  list; a closing parenthesis gives the empty list.
\<close>

definition ReadList ::
  "'f subReaders \<Rightarrow> 'f vtkFoamToken list \<Rightarrow> foamError + ('f valueData \<times> 'f vtkFoamToken list)"
where
  "ReadList rd ts =
     (case ts of
        PunctuationTok c # ts' \<Rightarrow>
          (if c = CHR '')'' then Inr (EmptyListD, ts')
           else (case ReadListP rd ts of Inl e \<Rightarrow> Inl e | Inr (d, k) \<Rightarrow> Inr (d, drop k ts)))
      | _ \<Rightarrow> (case ReadListP rd ts of Inl e \<Rightarrow> Inl e | Inr (d, k) \<Rightarrow> Inr (d, drop k ts)))"

text \<open>
  \<^verbatim>\<open>ReadNonuniformList<listType, traits>\<close> sets the type of the value to \<open>listType\<close> before
  it reads the elements. The three instances: a float array of \<open>n\<close> components that becomes
  a scalar list or a vector list, a label array, and the byte array of \<^verbatim>\<open>List<bool>\<close>.
\<close>

definition ReadNonuniformFloats ::
  "'f subReaders \<Rightarrow> bool \<Rightarrow> nat \<Rightarrow> 'f vtkFoamToken list
   \<Rightarrow> foamError + ('f valueData \<times> 'f vtkFoamToken list)"
where
  "ReadNonuniformFloats rd isVector n ts =
     (case ReadFloatsP rd n ts of
        Inl e \<Rightarrow> Inl e
      | Inr (xs, k) \<Rightarrow> Inr (if isVector then VectorListD n xs else ScalarListD xs, drop k ts))"

definition ReadNonuniformLabels ::
  "'f subReaders \<Rightarrow> 'f vtkFoamToken list \<Rightarrow> foamError + ('f valueData \<times> 'f vtkFoamToken list)"
where
  "ReadNonuniformLabels rd ts =
     (case ReadLabelsP rd ts of Inl e \<Rightarrow> Inl e | Inr (xs, k) \<Rightarrow> Inr (LabelListD xs, drop k ts))"

definition ReadNonuniformBools ::
  "'f subReaders \<Rightarrow> 'f vtkFoamToken list \<Rightarrow> foamError + ('f valueData \<times> 'f vtkFoamToken list)"
where
  "ReadNonuniformBools rd ts =
     (case ReadBoolsP rd ts of Inl e \<Rightarrow> Inl e | Inr (xs, k) \<Rightarrow> Inr (BoolListD xs, drop k ts))"

text \<open>A reader's result made into the result of \<^verbatim>\<open>Read\<close>: the return value 1 and the value.\<close>

definition asValue ::
  "bool \<Rightarrow> foamError + ('f valueData \<times> 'f vtkFoamToken list)
   \<Rightarrow> foamError + (int \<times> 'f vtkFoamEntryValue \<times> 'f vtkFoamToken list)"
where
  "asValue u r = (case r of Inl e \<Rightarrow> Inl e | Inr (d, ts) \<Rightarrow> Inr (1, EntryValue u d, ts))"

text \<open>The branch of \<^verbatim>\<open>vtkFoamEntryValue::Read\<close> after the keyword \<^verbatim>\<open>uniform\<close>.\<close>

definition ReadAfterUniform ::
  "'f subReaders \<Rightarrow> 'f vtkFoamToken list
   \<Rightarrow> foamError + (int \<times> 'f vtkFoamEntryValue \<times> 'f vtkFoamToken list)"
where
  "ReadAfterUniform rd ts =
     (case ts of
        [] \<Rightarrow> Inl UnexpectedEOF
      | t # ts' \<Rightarrow>
          (if t = PunctuationTok CHR ''('' then asValue True (ReadList rd ts')
           else if t = PunctuationTok CHR '';''
             then Inr (0, EntryValue False (Atom (StringTok ''uniform'')), ts')
           else if TokGetType t = LABEL \<or> TokGetType t = SCALAR \<or> TokGetType t = STRING
             then Inr (1, EntryValue True (Atom t), ts')
           else Inl ExpectedNumberStringOrParen))"

text \<open>
  The branch after the keyword \<^verbatim>\<open>nonuniform\<close>: a list type specifier, or the label 0 of
  an empty list, which has no specifier; \<^verbatim>\<open>()\<close> is expected after it when the file is in
  ASCII format (\<open>isAsciiFormat\<close> is \<^verbatim>\<open>io.IsAsciiFormat()\<close>), and nothing is read after it
  in binary format.
\<close>

definition ReadAfterNonuniform ::
  "bool \<Rightarrow> 'f subReaders \<Rightarrow> 'f vtkFoamToken list
   \<Rightarrow> foamError + (int \<times> 'f vtkFoamEntryValue \<times> 'f vtkFoamToken list)"
where
  "ReadAfterNonuniform isAsciiFormat rd ts =
     (case ts of
        [] \<Rightarrow> Inl UnexpectedEOF
      | t # ts' \<Rightarrow>
          (if t = StringTok ''List<scalar>'' then asValue False (ReadNonuniformFloats rd False 1 ts')
           else if t = StringTok ''List<sphericalTensor>''
             then asValue False (ReadNonuniformFloats rd True 1 ts')
           else if t = StringTok ''List<vector>''
             then asValue False (ReadNonuniformFloats rd True 3 ts')
           else if t = StringTok ''List<symmTensor>''
             then asValue False (ReadNonuniformFloats rd True 6 ts')
           else if t = StringTok ''List<tensor>''
             then asValue False (ReadNonuniformFloats rd True 9 ts')
           else if t = StringTok ''List<label>'' \<or> t = StringTok ''List<bool>''
             then asValue False (ReadNonuniformLabels rd ts')
           else if t = LabelTok 0
             then (if isAsciiFormat
                   then (case ReadExpecting CHR ''('' ts' of
                           Inl e \<Rightarrow> Inl e
                         | Inr ts2 \<Rightarrow>
                             (case ReadExpecting CHR '')'' ts2 of
                                Inl e \<Rightarrow> Inl e
                              | Inr ts3 \<Rightarrow> Inr (1, EntryValue False EmptyListD, ts3)))
                   else Inr (1, EntryValue False EmptyListD, ts'))
           else if t = PunctuationTok CHR '';''
             then Inr (0, EntryValue False (Atom (StringTok ''nonuniform'')), ts')
           else Inl UnsupportedNonuniformListType))"

text \<open>
  \<^verbatim>\<open>vtkFoamEntryValue::Read\<close>: the return value (0 when the terminating semicolon was met
  inside the value, 1 otherwise), the value read, and the remaining tokens. A value starts
  with \<^verbatim>\<open>IsUniformEntry = false\<close> and the undefined type.
\<close>

definition ReadEntryValue ::
  "bool \<Rightarrow> 'f subReaders \<Rightarrow> 'f vtkFoamToken list
   \<Rightarrow> foamError + (int \<times> 'f vtkFoamEntryValue \<times> 'f vtkFoamToken list)"
where
  "ReadEntryValue isAsciiFormat rd ts =
     (case ts of
        [] \<Rightarrow> Inl UnexpectedEOF
      | t # ts' \<Rightarrow>
          (if t = PunctuationTok CHR ''{''
             then (case ReadDictionaryP rd ts' of
                     Inl e \<Rightarrow> Inl e
                   | Inr (d, k) \<Rightarrow> Inr (1, EntryValue False (DictionaryD d), drop k ts'))
           else if t = PunctuationTok CHR ''('' then asValue False (ReadList rd ts')
           else if t = PunctuationTok CHR ''[''
             then (case ReadDimensionSetP rd ts' of
                     Inl e \<Rightarrow> Inl e
                   | Inr (dims, k) \<Rightarrow> Inr (1, EntryValue False (ScalarListD dims), drop k ts'))
           else if t = StringTok ''uniform'' then ReadAfterUniform rd ts'
           else if t = StringTok ''nonuniform'' then ReadAfterNonuniform isAsciiFormat rd ts'
           else if t = StringTok ''List<scalar>''
             then asValue False (ReadNonuniformFloats rd False 1 ts')
           else if t = StringTok ''List<label>'' then asValue False (ReadNonuniformLabels rd ts')
           else if t = StringTok ''List<bool>'' then asValue False (ReadNonuniformBools rd ts')
           else if TokGetType t = PUNCTUATION \<or> TokGetType t = LABEL \<or> TokGetType t = SCALAR
                   \<or> TokGetType t = STRING \<or> TokGetType t = IDENTIFIER
             then Inr (1, EntryValue False (Atom t), ts')
           else Inr (1, EntryValue False (Atom UndefinedTok), ts')))"

text \<open>
  The special cases of \<^verbatim>\<open>vtkFoamEntry::Read\<close> for a label followed by another value, applied
  to the values of the entry after each value read: \<^verbatim>\<open>0()\<close> without keyword or type
  specifier, and \<^verbatim>\<open>LABEL{LABELorSCALAR}\<close>. \<^verbatim>\<open>vtkFoamDict::GetType\<close> is the type of the
  dictionary's token, or \<^verbatim>\<open>DICTIONARY\<close> when that is undefined.
\<close>

definition DictGetType :: "'f vtkFoamDict \<Rightarrow> tokenType" where
  "DictGetType d = (if TokGetType (Token d) = UNDEFINED then DICTIONARY else TokGetType (Token d))"

fun TokToInt :: "'f vtkFoamToken \<Rightarrow> int" where
  "TokToInt (LabelTok n) = n"
| "TokToInt t = 0"

fun TokToFloat :: "'f floatConv \<Rightarrow> 'f vtkFoamToken \<Rightarrow> 'f" where
  "TokToFloat cv (LabelTok n) = ofLabel cv n"
| "TokToFloat cv (ScalarTok x) = ofDouble cv x"
| "TokToFloat cv t = zeroF cv"

definition foldLabelPrefix ::
  "'f floatConv \<Rightarrow> 'f vtkFoamEntryValue list \<Rightarrow> 'f vtkFoamEntryValue list"
where
  "foldLabelPrefix cv vs =
     (if length vs \<ge> 2 then
        (let secondLastValue = vs ! (length vs - 2); lastValue = last vs
         in if GetType secondLastValue = LABEL then
              (if GetType lastValue = EMPTYLIST \<and> Payload secondLastValue = Atom (LabelTok 0)
               then butlast (butlast vs) @ [EntryValue False EmptyListD]
               else
                 (case Payload lastValue of
                    DictionaryD d \<Rightarrow>
                      (if DictGetType d = LABEL
                       then butlast (butlast vs) @
                            [EntryValue False
                               (LabelListD (replicate (nat (ValueToInt secondLastValue))
                                              (TokToInt (Token d))))]
                       else if DictGetType d = SCALAR
                       then butlast (butlast vs) @
                            [EntryValue False
                               (ScalarListD (replicate (nat (ValueToInt secondLastValue))
                                               (TokToFloat cv (Token d))))]
                       else vs)
                  | _ \<Rightarrow> vs))
            else vs)
      else vs)"

text \<open>
  Identifier substitution searches the enclosing dictionaries from the innermost outwards
  (\<open>upper\<close>) with \<^verbatim>\<open>Lookup\<close> and fails when none has the entry.
\<close>

datatype entryError = Stream foamError | SubstitutingEntryNotFound string | Unmatched char

fun substituteIdentifier ::
  "'f vtkFoamDict list \<Rightarrow> string \<Rightarrow> 'f vtkFoamEntryValue list option"
where
  "substituteIdentifier [] identifier = None"
| "substituteIdentifier (d # upper) identifier =
     (case LookupEntry d identifier of
        Some e \<Rightarrow> Some (Values e)
      | None \<Rightarrow> substituteIdentifier upper identifier)"

text \<open>
  Every reader returns a suffix of its input, and \<^verbatim>\<open>vtkFoamEntryValue::Read\<close> consumes at
  least one token; the loop of \<^verbatim>\<open>vtkFoamEntry::Read\<close> terminates for that reason.
\<close>

lemma if_resultE:
  assumes "(if c then A else B) = r"
  obtains "A = r" | "B = r"
  using assms by (cases c) auto

lemma ReadExpecting_shorter:
  "ReadExpecting c ts = Inr ts' \<Longrightarrow> length ts' < length ts"
  by (cases ts) (auto split: if_splits)

lemma ReadList_shorter:
  "ReadList rd ts = Inr (d, ts') \<Longrightarrow> length ts' \<le> length ts"
proof (cases ts)
  case Nil
  then show "ReadList rd ts = Inr (d, ts') \<Longrightarrow> length ts' \<le> length ts"
    by (auto simp: ReadList_def split: sum.splits)
next
  case (Cons t rest)
  then show "ReadList rd ts = Inr (d, ts') \<Longrightarrow> length ts' \<le> length ts"
    by (cases t) (auto simp: ReadList_def split: sum.splits if_splits)
qed

lemma asValue_Inr:
  "asValue u r = Inr (k, v, ts') \<Longrightarrow> \<exists>d. r = Inr (d, ts')"
  by (cases r) (auto simp: asValue_def)

lemma ReadNonuniformFloats_shorter:
  "ReadNonuniformFloats rd b n ts = Inr (d, ts') \<Longrightarrow> length ts' \<le> length ts"
  by (auto simp: ReadNonuniformFloats_def split: sum.splits)

lemma ReadNonuniformLabels_shorter:
  "ReadNonuniformLabels rd ts = Inr (d, ts') \<Longrightarrow> length ts' \<le> length ts"
  by (auto simp: ReadNonuniformLabels_def split: sum.splits)

lemma ReadNonuniformBools_shorter:
  "ReadNonuniformBools rd ts = Inr (d, ts') \<Longrightarrow> length ts' \<le> length ts"
  by (auto simp: ReadNonuniformBools_def split: sum.splits)

lemma asValue_shorter:
  assumes "asValue u r = Inr (k, v, ts')" and "\<And>d. r = Inr (d, ts') \<Longrightarrow> length ts' \<le> n"
  shows "length ts' \<le> n"
  using asValue_Inr [OF assms(1)] assms(2) by blast

lemma ReadAfterUniform_shorter:
  assumes "ReadAfterUniform rd ts = Inr (k, v, ts')"
  shows "length ts' < length ts"
proof (cases ts)
  case Nil
  with assms show ?thesis by (simp add: ReadAfterUniform_def)
next
  case (Cons t rest)
  show ?thesis
  proof (cases "t = PunctuationTok CHR ''(''")
    case True
    with assms Cons have "asValue True (ReadList rd rest) = Inr (k, v, ts')"
      by (simp add: ReadAfterUniform_def)
    then have "length ts' \<le> length rest"
      by (rule asValue_shorter) (rule ReadList_shorter)
    with Cons show ?thesis by simp
  next
    case False
    with assms Cons show ?thesis
      by (auto simp: ReadAfterUniform_def split: if_splits)
  qed
qed

lemma ReadAfterNonuniform_shorter:
  assumes "ReadAfterNonuniform a rd ts = Inr (k, v, ts')"
  shows "length ts' < length ts"
proof (cases ts)
  case Nil
  with assms show ?thesis by (simp add: ReadAfterNonuniform_def)
next
  case (Cons t rest)
  have F: "length ts' \<le> length rest"
    if "asValue False (ReadNonuniformFloats rd b n rest) = Inr (k, v, ts')" for b n
    using that by (rule asValue_shorter) (rule ReadNonuniformFloats_shorter)
  have L: "length ts' \<le> length rest"
    if "asValue False (ReadNonuniformLabels rd rest) = Inr (k, v, ts')"
    using that by (rule asValue_shorter) (rule ReadNonuniformLabels_shorter)
  have E: "length ts' \<le> length rest"
    if "(case ReadExpecting CHR ''('' rest of
                     Inl e \<Rightarrow> Inl e
                   | Inr ts2 \<Rightarrow>
                       (case ReadExpecting CHR '')'' ts2 of
                          Inl e \<Rightarrow> Inl e
                        | Inr ts3 \<Rightarrow> Inr (1, EntryValue False EmptyListD, ts3))) = Inr (k, v, ts')"
    using that by (auto split: sum.splits dest!: ReadExpecting_shorter)
  have E': "length ts' \<le> length rest"
    if "Inr (1, EntryValue False EmptyListD, rest) = Inr (k, v, ts')"
    using that by simp
  have X: "length ts' \<le> length rest" if "Inl UnsupportedNonuniformListType = Inr (k, v, ts')"
    using that by simp
  have S: "length ts' \<le> length rest"
    if "Inr (0, EntryValue False (Atom (StringTok ''nonuniform'')), rest) = Inr (k, v, ts')"
    using that by simp
  from assms have "length ts' \<le> length rest"
    unfolding ReadAfterNonuniform_def Cons list.case
    by (elim if_resultE) (erule F L E E' X S)+
  with Cons show ?thesis by simp
qed

lemma ReadEntryValue_shorter:
  assumes "ReadEntryValue a rd ts = Inr (k, v, ts')"
  shows "length ts' < length ts"
proof (cases ts)
  case Nil
  with assms show ?thesis by (simp add: ReadEntryValue_def)
next
  case (Cons t rest)
  have F: "length ts' \<le> length rest"
    if "asValue False (ReadNonuniformFloats rd b n rest) = Inr (k, v, ts')" for b n
    using that by (rule asValue_shorter) (rule ReadNonuniformFloats_shorter)
  have L: "length ts' \<le> length rest"
    if "asValue False (ReadNonuniformLabels rd rest) = Inr (k, v, ts')"
    using that by (rule asValue_shorter) (rule ReadNonuniformLabels_shorter)
  have B: "length ts' \<le> length rest"
    if "asValue False (ReadNonuniformBools rd rest) = Inr (k, v, ts')"
    using that by (rule asValue_shorter) (rule ReadNonuniformBools_shorter)
  have RL: "length ts' \<le> length rest"
    if "asValue False (ReadList rd rest) = Inr (k, v, ts')"
    using that by (rule asValue_shorter) (rule ReadList_shorter)
  have D: "length ts' \<le> length rest"
    if "(case ReadDictionaryP rd rest of
                     Inl e \<Rightarrow> Inl e
                   | Inr (d, k) \<Rightarrow> Inr (1, EntryValue False (DictionaryD d), drop k rest))
        = Inr (k, v, ts')"
    using that by (auto split: sum.splits)
  have DS: "length ts' \<le> length rest"
    if "(case ReadDimensionSetP rd rest of
                     Inl e \<Rightarrow> Inl e
                   | Inr (dims, k) \<Rightarrow> Inr (1, EntryValue False (ScalarListD dims), drop k rest))
        = Inr (k, v, ts')"
    using that by (auto split: sum.splits)
  have U: "length ts' \<le> length rest" if "ReadAfterUniform rd rest = Inr (k, v, ts')"
    using ReadAfterUniform_shorter [OF that] by simp
  have N: "length ts' \<le> length rest" if "ReadAfterNonuniform a rd rest = Inr (k, v, ts')"
    using ReadAfterNonuniform_shorter [OF that] by simp
  have A1: "length ts' \<le> length rest"
    if "Inr (1, EntryValue False (Atom a), rest) = Inr (k, v, ts')" for a
    using that by simp
  from assms have "length ts' \<le> length rest"
    unfolding ReadEntryValue_def Cons list.case
    by (elim if_resultE) (erule F L B RL D DS U N A1)+
  with Cons show ?thesis by simp
qed


text \<open>
  The loop of \<^verbatim>\<open>vtkFoamEntry::Read\<close>; \<open>vs\<close> are the values the entry holds so far. Every
  round consumes at least one token.
\<close>

function EntryRead_loop ::
  "bool \<Rightarrow> 'f subReaders \<Rightarrow> 'f floatConv \<Rightarrow> 'f vtkFoamDict list
   \<Rightarrow> 'f vtkFoamEntryValue list \<Rightarrow> 'f vtkFoamToken list
   \<Rightarrow> entryError + ('f vtkFoamEntryValue list \<times> 'f vtkFoamToken list)"
where
  "EntryRead_loop isAsciiFormat rd cv upper vs ts =
     (case ReadEntryValue isAsciiFormat rd ts of
        Inl e \<Rightarrow> Inl (Stream e)
      | Inr (ret, v, ts') \<Rightarrow>
          (if ret = 0 then Inr (vs @ [v], ts')
           else
             (let vs' = foldLabelPrefix cv (vs @ [v]); back = last vs'
              in case Payload back of
                   Atom (IdentifierTok identifier) \<Rightarrow>
                     (case substituteIdentifier upper identifier of
                        None \<Rightarrow> Inl (SubstitutingEntryNotFound identifier)
                      | Some values \<Rightarrow>
                          EntryRead_loop isAsciiFormat rd cv upper (butlast vs' @ values) ts')
                 | Atom (PunctuationTok c) \<Rightarrow>
                     (if c = CHR '';'' then Inr (butlast vs', ts')
                      else if c = CHR ''}'' \<or> c = CHR '')'' then Inl (Unmatched c)
                      else EntryRead_loop isAsciiFormat rd cv upper vs' ts')
                 | DictionaryD d \<Rightarrow> Inr (vs', ts')
                 | _ \<Rightarrow> EntryRead_loop isAsciiFormat rd cv upper vs' ts')))"
  by pat_completeness auto
termination
  by (relation "measure (\<lambda>(a, rd, cv, upper, vs, ts). length ts)")
     (auto dest: ReadEntryValue_shorter)

declare EntryRead_loop.simps [simp del]

definition EntryRead ::
  "bool \<Rightarrow> 'f subReaders \<Rightarrow> 'f floatConv \<Rightarrow> 'f vtkFoamDict list \<Rightarrow> 'f vtkFoamToken list
   \<Rightarrow> entryError + ('f vtkFoamEntryValue list \<times> 'f vtkFoamToken list)"
where
  "EntryRead isAsciiFormat rd cv upper ts = EntryRead_loop isAsciiFormat rd cv upper [] ts"


definition tokensNonuniformZeroList :: "'f vtkFoamToken list" where
  "tokensNonuniformZeroList = [StringTok ''nonuniform'', LabelTok 0, PunctuationTok CHR ''('',
     PunctuationTok CHR '')'', PunctuationTok CHR '';'']"







section \<open>Cell shapes: \<^verbatim>\<open>InsertCellsToGrid\<close>\<close>



definition facePoints :: "int list list \<Rightarrow> int \<Rightarrow> int list" where
  "facePoints meshFaces facei = meshFaces ! nat facei"


definition isOwner :: "int list \<Rightarrow> int \<Rightarrow> int \<Rightarrow> bool" where
  "isOwner faceOwner facei cellId = (faceOwner ! nat facei = cellId)"

subsection \<open>Classification\<close>



subsection \<open>Hexahedron\<close>


text \<open>The base face in the order of the cell: flipped when the cell owns the face.\<close>

definition hexBasePoints :: "int list \<Rightarrow> int list list \<Rightarrow> int \<Rightarrow> int list \<Rightarrow> int list" where
  "hexBasePoints faceOwner meshFaces cellId cellFaces =
     (let cellBaseFaceId = cellFaces ! 0; face0Points = facePoints meshFaces cellBaseFaceId
      in if isOwner faceOwner cellBaseFaceId cellId
         then map (\<lambda>j. face0Points ! (3 - j)) [0..<4]
         else map (\<lambda>j. face0Points ! j) [0..<4])"











subsection \<open>Wedge\<close>







subsection \<open>Pyramid and tetrahedron\<close>



subsection \<open>Polyhedron\<close>












subsection \<open>The loop over the cells\<close>





subsection \<open>Example meshes\<close>













section \<open>Faces of the cells: \<^verbatim>\<open>CreateCellFaces\<close>\<close>

text \<open>
  \<^verbatim>\<open>CreateCellFaces\<close> builds the list of the faces of each cell from the owner cell of every
  face and the neighbour cell of every internal face. The two arrays are lists of labels;
  \<^verbatim>\<open>nFaces\<close> is the length of \<^verbatim>\<open>faceOwner\<close> and \<^verbatim>\<open>nInternalFaces\<close> the length of
  \<^verbatim>\<open>faceNeigh\<close>.

  Three more operations of \<^verbatim>\<open>vtkFoamLabelListListImpl\<close>: \<^verbatim>\<open>ResetOffsets\<close> fills the offsets
  with zero, \<^verbatim>\<open>IncrementOffset(i)\<close> adds one to offset \<open>i\<close>, and \<^verbatim>\<open>SetValue(bodyIndex, value)\<close>
  with two arguments, \<open>SetBodyValue\<close> here, writes into the packed data.
\<close>

definition ResetOffsets :: "vtkFoamLabelListList \<Rightarrow> vtkFoamLabelListList" where
  "ResetOffsets l = l\<lparr>Offsets := map (\<lambda>v. Some 0) (Offsets l)\<rparr>"

definition IncrementOffset :: "nat \<Rightarrow> vtkFoamLabelListList \<Rightarrow> vtkFoamLabelListList" where
  "IncrementOffset i l =
     l\<lparr>Offsets := (Offsets l)[i := map_option (\<lambda>v. v + 1) (Offsets l ! i)]\<rparr>"

definition SetBodyValue :: "nat \<Rightarrow> int \<Rightarrow> vtkFoamLabelListList \<Rightarrow> vtkFoamLabelListList" where
  "SetBodyValue bodyIndex val l = l\<lparr>Data := (Data l)[bodyIndex := Some val]\<rparr>"

text \<open>
  The function runs the same pair of loops three times: over the internal faces, looking at
  the owner and then at the neighbour of each, and over the remaining faces, looking at the
  owner. \<open>faceLabels\<close> is the sequence of the faces and labels looked at, and
  \<open>forEachFaceLabel\<close> runs the loops with the statement \<open>visit\<close> executed under the test
  \<^verbatim>\<open>if (own >= 0)\<close> or \<^verbatim>\<open>if (nei >= 0)\<close>.
\<close>

definition faceLabels :: "int list \<Rightarrow> int list \<Rightarrow> (nat \<times> int) list" where
  "faceLabels faceOwner faceNeigh =
     concat (map (\<lambda>facei. [(facei, faceOwner ! facei), (facei, faceNeigh ! facei)])
               [0..<length faceNeigh]) @
     map (\<lambda>facei. (facei, faceOwner ! facei)) [length faceNeigh..<length faceOwner]"

definition forEachFaceLabel ::
  "(nat \<Rightarrow> int \<Rightarrow> 's \<Rightarrow> 's) \<Rightarrow> int list \<Rightarrow> int list \<Rightarrow> 's \<Rightarrow> 's"
where
  "forEachFaceLabel visit faceOwner faceNeigh s =
     fold (\<lambda>(facei, label) s. if label \<ge> 0 then visit facei label s else s)
       (faceLabels faceOwner faceNeigh) s"

text \<open>
  The first pass determines \<^verbatim>\<open>nCells\<close>, the largest label so far (\<open>-1\<close> at the start), and
  \<^verbatim>\<open>nTotalCellFaces\<close>.
\<close>

definition countLabel :: "nat \<Rightarrow> int \<Rightarrow> int \<times> int \<Rightarrow> int \<times> int" where
  "countLabel facei own st =
     (case st of (nCells, nTotalCellFaces) \<Rightarrow>
        (if nCells < own then own else nCells, nTotalCellFaces + 1))"

text \<open>The second pass counts the faces of each cell in the offset one above the cell.\<close>

definition countOffset :: "nat \<Rightarrow> int \<Rightarrow> vtkFoamLabelListList \<Rightarrow> vtkFoamLabelListList" where
  "countOffset facei own cells = IncrementOffset (nat (1 + own)) cells"

text \<open>
  The loop \<^verbatim>\<open>for (celli = 1; celli <= nCells; ++celli)\<close> that turns the counts into start
  offsets; \<open>n\<close> is the number of rounds left.
\<close>

fun reduceOffsets ::
  "nat \<Rightarrow> nat \<Rightarrow> int \<Rightarrow> vtkFoamLabelListList \<Rightarrow> vtkFoamLabelListList"
where
  "reduceOffsets celli 0 currOffset cells = cells"
| "reduceOffsets celli (Suc n) currOffset cells =
     (let currOffset' = currOffset + the (GetBeginOffset cells celli)
      in reduceOffsets (Suc celli) n currOffset' (SetOffset celli currOffset' cells))"

text \<open>
  The third pass writes each face at the position that \<^verbatim>\<open>tmpAddr\<close> holds for the cell and
  moves that position on.
\<close>

definition addFace ::
  "nat \<Rightarrow> int \<Rightarrow> vtkFoamLabelListList \<times> vtkFoamLabelListList
   \<Rightarrow> vtkFoamLabelListList \<times> vtkFoamLabelListList"
where
  "addFace facei own st =
     (case st of (tmpAddr, cells) \<Rightarrow>
        (let next = the (GetBeginOffset tmpAddr (nat own))
         in (IncrementOffset (nat own) tmpAddr, SetBodyValue (nat next) (int facei) cells)))"

text \<open>
  The result is \<^verbatim>\<open>NumCells\<close> and the list \<^verbatim>\<open>meshCells\<close>. \<^verbatim>\<open>++nCells\<close> is an increment of a
  \<^verbatim>\<open>vtkTypeInt64\<close>. The list has 32-bit elements unless the labels are 64-bit or
  \<^verbatim>\<open>nTotalCellFaces\<close> exceeds \<^verbatim>\<open>VTK_TYPE_INT32_MAX\<close>; the offsets written are at most
  \<^verbatim>\<open>nTotalCellFaces\<close> and, when no label is negative, the face numbers are below it, so the
  conversions to the element type change no value and are left out.
\<close>

definition CreateCellFaces :: "int list \<Rightarrow> int list \<Rightarrow> int \<times> vtkFoamLabelListList" where
  "CreateCellFaces faceOwner faceNeigh =
     (case forEachFaceLabel countLabel faceOwner faceNeigh (-1, 0) of
        (nCells0, nTotalCellFaces) \<Rightarrow>
          (let nCells = vtkIdType (nCells0 + 1);
               cells0 = ResetOffsets (ResizeExact nCells nTotalCellFaces);
               cells1 = forEachFaceLabel countOffset faceOwner faceNeigh cells0;
               cells2 = reduceOffsets 1 (nat nCells) 0 cells1;
               tmpAddr = (ResizeExact nCells 1)\<lparr>Offsets := Offsets cells2\<rparr>
           in (nCells, snd (forEachFaceLabel addFace faceOwner faceNeigh (tmpAddr, cells2)))))"

text \<open>
  A mesh of one cell whose only face is an internal face with the cell on both sides; and
  two cells that share the internal face 0 and have the boundary faces 1 and 2.
\<close>

definition selfOwner :: "int list" where "selfOwner = [0]"

definition selfNeigh :: "int list" where "selfNeigh = [0]"

definition pairOwner :: "int list" where "pairOwner = [0, 0, 1]"

definition pairNeigh :: "int list" where "pairNeigh = [1]"

section \<open>Properties of the dictionary lookup\<close>

lemma Lookup_loop_exact:
  "j < length es \<Longrightarrow> Keyword (es ! j) = keyword \<Longrightarrow> \<forall>k<j. Keyword (es ! k) \<noteq> keyword
   \<Longrightarrow> Lookup_loop rex es keyword regex i lastMatch = Some (i + j)"
proof (induction es arbitrary: i j lastMatch)
  case Nil
  then show ?case by simp
next
  case (Cons e es)
  show ?case
  proof (cases j)
    case 0
    with Cons.prems show ?thesis by simp
  next
    case (Suc j')
    from Cons.prems Suc have ne: "Keyword e \<noteq> keyword" by auto
    have a: "j' < length es" using Cons.prems Suc by simp
    have b: "Keyword (es ! j') = keyword" using Cons.prems Suc by simp
    have c: "\<forall>k<j'. Keyword (es ! k) \<noteq> keyword"
    proof (intro allI impI)
      fix k assume "k < j'"
      then have "Suc k < j" using Suc by simp
      with Cons.prems(3) have "Keyword ((e # es) ! Suc k) \<noteq> keyword" by blast
      then show "Keyword (es ! k) \<noteq> keyword" by simp
    qed
    have "Lookup_loop rex es keyword regex (Suc i) lm = Some (Suc i + j')" for lm
      using Cons.IH [OF a b c] .
    with ne Suc show ?thesis by (cases regex) auto
  qed
qed

lemma Lookup_loop_none_exact:
  "\<forall>k<length es. Keyword (es ! k) \<noteq> keyword \<Longrightarrow>
   Lookup_loop rex es keyword regex i lastMatch =
     (if regex \<and> (\<exists>k<length es. rex (Keyword (es ! k)) keyword)
      then Some (i + (GREATEST k. k < length es \<and> rex (Keyword (es ! k)) keyword))
      else if lastMatch \<ge> 0 then Some (nat lastMatch) else None)"
proof (induction es arbitrary: i lastMatch)
  case Nil
  then show ?case by simp
next
  case (Cons e es)
  have ne: "Keyword e \<noteq> keyword" using Cons.prems by auto
  have tl: "\<forall>k<length es. Keyword (es ! k) \<noteq> keyword"
  proof (intro allI impI)
    fix k assume "k < length es"
    then have "Suc k < length (e # es)" by simp
    with Cons.prems have "Keyword ((e # es) ! Suc k) \<noteq> keyword" by blast
    then show "Keyword (es ! k) \<noteq> keyword" by simp
  qed
  note IH = Cons.IH [OF tl]
  let ?P = "\<lambda>k. k < length (e # es) \<and> rex (Keyword ((e # es) ! k)) keyword"
  let ?Q = "\<lambda>k. k < length es \<and> rex (Keyword (es ! k)) keyword"
  show ?case
  proof (cases "\<exists>k. ?Q k")
    case True
    then obtain k0 where k0: "?Q k0" by blast
    have bQ: "\<forall>y. ?Q y \<longrightarrow> y \<le> length es" by simp
    have gQ: "?Q (Greatest ?Q)" by (rule GreatestI_nat [of ?Q k0 "length es"]) (use k0 in auto)
    have bP: "\<forall>y. ?P y \<longrightarrow> y \<le> Suc (length es)" by simp
    have "Greatest ?P = Suc (Greatest ?Q)"
    proof (rule Greatest_equality)
      show "?P (Suc (Greatest ?Q))" using gQ by simp
    next
      fix y assume y: "?P y"
      show "y \<le> Suc (Greatest ?Q)"
      proof (cases y)
        case 0 then show ?thesis by simp
      next
        case (Suc y')
        with y have "?Q y'" by simp
        then have "y' \<le> Greatest ?Q" by (rule Greatest_le_nat [of ?Q _ "length es"]) simp
        with Suc show ?thesis by simp
      qed
    qed
    moreover have "\<exists>k<length (e # es). rex (Keyword ((e # es) ! k)) keyword"
      using k0 by (intro exI [of _ "Suc k0"]) simp
    ultimately show ?thesis using ne True IH by auto
  next
    case False
    show ?thesis
    proof (cases "regex \<and> rex (Keyword e) keyword")
      case True
      have "Greatest ?P = 0"
      proof (rule Greatest_equality)
        show "?P 0" using True by simp
      next
        fix y assume y: "?P y"
        show "y \<le> 0"
        proof (cases y)
          case 0 then show ?thesis by simp
        next
          case (Suc y')
          with y have "?Q y'" by simp
          with False show ?thesis by blast
        qed
      qed
      moreover have "\<exists>k<length (e # es). rex (Keyword ((e # es) ! k)) keyword"
        using True by (intro exI [of _ 0]) simp
      ultimately show ?thesis using ne True False IH by simp
    next
      case F2: False
      have "\<not> (regex \<and> (\<exists>k<length (e # es). rex (Keyword ((e # es) ! k)) keyword))"
      proof
        assume h: "regex \<and> (\<exists>k<length (e # es). rex (Keyword ((e # es) ! k)) keyword)"
        then obtain k where k: "k < length (e # es)" "rex (Keyword ((e # es) ! k)) keyword"
          by blast
        show False
        proof (cases k)
          case 0
          with k h F2 show ?thesis by simp
        next
          case (Suc k')
          with k have "?Q k'" by simp
          with False show ?thesis by blast
        qed
      qed
      then show ?thesis using ne F2 False IH by auto
    qed
  qed
qed

lemma Lookup_exact_case:
  assumes U: "TokGetType (Token d) = UNDEFINED"
    and ex: "\<exists>k<length (Entries d). Keyword (Entries d ! k) = keyword"
  shows "\<exists>j. Lookup rex d keyword regex = Some j \<and> j < length (Entries d) \<and>
           Keyword (Entries d ! j) = keyword \<and> (\<forall>k<j. Keyword (Entries d ! k) \<noteq> keyword)"
proof -
  let ?es = "Entries d"
  let ?E = "\<lambda>k. k < length ?es \<and> Keyword (?es ! k) = keyword"
  define j where "j = (LEAST k. ?E k)"
  from ex have "\<exists>k. ?E k" by blast
  then have j: "?E j" unfolding j_def by (rule LeastI_ex)
  have jmin: "\<forall>k<j. Keyword (?es ! k) \<noteq> keyword"
  proof (intro allI impI)
    fix k assume kj: "k < j"
    then have "\<not> ?E k" unfolding j_def by (rule not_less_Least)
    moreover have "k < length ?es" using kj j by simp
    ultimately show "Keyword (?es ! k) \<noteq> keyword" by simp
  qed
  have "Lookup_loop rex ?es keyword regex 0 (-1) = Some (0 + j)"
    by (rule Lookup_loop_exact) (use j jmin in simp_all)
  then have "Lookup rex d keyword regex = Some j"
    using U by (simp add: Lookup_def)
  with j jmin show ?thesis by blast
qed

lemma Lookup_regex_case:
  assumes U: "TokGetType (Token d) = UNDEFINED"
    and noE: "\<forall>k<length (Entries d). Keyword (Entries d ! k) \<noteq> keyword"
    and rx: "regex" "\<exists>k<length (Entries d). rex (Keyword (Entries d ! k)) keyword"
  shows "\<exists>g. Lookup rex d keyword regex = Some g \<and> g < length (Entries d) \<and>
           rex (Keyword (Entries d ! g)) keyword \<and>
           (\<forall>k<length (Entries d). g < k \<longrightarrow> \<not> rex (Keyword (Entries d ! k)) keyword)"
proof -
  let ?es = "Entries d"
  let ?P = "\<lambda>k. k < length ?es \<and> rex (Keyword (?es ! k)) keyword"
  from rx obtain k0 where k0: "?P k0" by blast
  define g where "g = Greatest ?P"
  have g: "?P g" unfolding g_def by (rule GreatestI_nat [of ?P k0 "length ?es"]) (use k0 in auto)
  have gmax: "k \<le> g" if "?P k" for k
    unfolding g_def using that by (rule Greatest_le_nat [of ?P _ "length ?es"]) simp
  have "Lookup_loop rex ?es keyword regex 0 (-1) = Some (0 + g)"
    unfolding g_def using Lookup_loop_none_exact [OF noE, of rex regex 0 "-1"] rx by simp
  then have R: "Lookup rex d keyword regex = Some g"
    using U by (simp add: Lookup_def)
  have "\<forall>k<length ?es. g < k \<longrightarrow> \<not> rex (Keyword (?es ! k)) keyword"
  proof (intro allI impI notI)
    fix k assume "k < length ?es" "g < k" "rex (Keyword (?es ! k)) keyword"
    then have "k \<le> g" using gmax by blast
    with \<open>g < k\<close> show False by simp
  qed
  with R g show ?thesis by blast
qed

lemma Lookup_none_case:
  assumes noE: "\<forall>k<length (Entries d). Keyword (Entries d ! k) \<noteq> keyword"
    and nrx: "\<not> (regex \<and> (\<exists>k<length (Entries d). rex (Keyword (Entries d ! k)) keyword))"
  shows "Lookup rex d keyword regex = None"
  using Lookup_loop_none_exact [OF noE, of rex regex 0 "-1"] nrx
  by (simp add: Lookup_def)

lemma Lookup_degenerate: "TokGetType (Token d) \<noteq> UNDEFINED \<Longrightarrow> Lookup rex d keyword regex = None"
  by (simp add: Lookup_def)

text \<open>
  Claim C9. \<^verbatim>\<open>Lookup\<close> returns the first entry, in insertion order, whose keyword equals
  the search string; when no keyword is equal and regex mode is on, it returns the entry of
  largest position whose keyword, as a regular expression, matches the whole search string;
  otherwise, and always when the dictionary holds a single token instead of entries, it
  returns null.
\<close>

theorem Lookup_first_exact_else_last_regex:
  "(Lookup rex d keyword regex = Some i \<longleftrightarrow>
      TokGetType (Token d) = UNDEFINED \<and> i < length (Entries d) \<and>
      (Keyword (Entries d ! i) = keyword \<and> (\<forall>k<i. Keyword (Entries d ! k) \<noteq> keyword)
       \<or> (\<forall>k<length (Entries d). Keyword (Entries d ! k) \<noteq> keyword) \<and> regex \<and>
         rex (Keyword (Entries d ! i)) keyword \<and>
         (\<forall>k<length (Entries d). i < k \<longrightarrow> \<not> rex (Keyword (Entries d ! k)) keyword)))
   \<and> (Lookup rex d keyword regex = None \<longleftrightarrow>
      TokGetType (Token d) \<noteq> UNDEFINED \<or>
      (\<forall>k<length (Entries d). Keyword (Entries d ! k) \<noteq> keyword) \<and>
      \<not> (regex \<and> (\<exists>k<length (Entries d). rex (Keyword (Entries d ! k)) keyword)))"
proof -
  let ?es = "Entries d"
  define U where "U \<longleftrightarrow> TokGetType (Token d) = UNDEFINED"
  define noE where "noE \<longleftrightarrow> (\<forall>k<length ?es. Keyword (?es ! k) \<noteq> keyword)"
  define anyR where "anyR \<longleftrightarrow> (\<exists>k<length ?es. rex (Keyword (?es ! k)) keyword)"
  define A where "A = (\<lambda>j. j < length ?es \<and> Keyword (?es ! j) = keyword \<and>
     (\<forall>k<j. Keyword (?es ! k) \<noteq> keyword))"
  define B where "B = (\<lambda>g. g < length ?es \<and> rex (Keyword (?es ! g)) keyword \<and>
     (\<forall>k<length ?es. g < k \<longrightarrow> \<not> rex (Keyword (?es ! k)) keyword))"
  let ?L = "Lookup rex d keyword regex"
  have c1: "\<exists>j. ?L = Some j \<and> A j" if "U" "\<not> noE"
    using Lookup_exact_case [of d keyword rex regex] that unfolding U_def noE_def A_def by blast
  have c2: "\<exists>g. ?L = Some g \<and> B g" if "U" "noE" "regex" "anyR"
    using Lookup_regex_case [of d keyword regex rex] that unfolding U_def noE_def B_def anyR_def
    by blast
  have c3: "?L = None" if "noE" "\<not> (regex \<and> anyR)"
    using Lookup_none_case [of d keyword regex rex] that unfolding noE_def anyR_def by blast
  have c4: "?L = None" if "\<not> U"
    using Lookup_degenerate [of d rex keyword regex] that unfolding U_def by blast
  have Auniq: "j = j'" if "A j" "A j'" for j j'
  proof (rule ccontr)
    assume "j \<noteq> j'"
    then consider "j < j'" | "j' < j" by linarith
    then show False using that unfolding A_def by cases blast+
  qed
  have Buniq: "g = g'" if "B g" "B g'" for g g'
  proof (rule ccontr)
    assume "g \<noteq> g'"
    then consider "g < g'" | "g' < g" by linarith
    then show False using that unfolding B_def by cases blast+
  qed
  have AnoE: "\<not> noE" if "A j" for j using that unfolding A_def noE_def by blast
  have BanyR: "anyR" if "B g" for g using that unfolding B_def anyR_def by blast
  have goal1: "?L = Some i \<longleftrightarrow> U \<and> (A i \<or> noE \<and> regex \<and> B i)"
  proof
    assume L: "?L = Some i"
    have u: U using L c4 by fastforce
    show "U \<and> (A i \<or> noE \<and> regex \<and> B i)"
    proof (cases noE)
      case False
      from c1 [OF u False] L show ?thesis using u by auto
    next
      case True
      have ra: "regex \<and> anyR" using c3 [OF True] L by fastforce
      from c2 [OF u True] ra L show ?thesis using u True by auto
    qed
  next
    assume R: "U \<and> (A i \<or> noE \<and> regex \<and> B i)"
    then have u: U by blast
    from R consider "A i" | "noE" "regex" "B i" by blast
    then show "?L = Some i"
    proof cases
      case 1
      from c1 [OF u AnoE [OF 1]] obtain j where "?L = Some j" "A j" by blast
      with Auniq [OF 1] show ?thesis by blast
    next
      case 2
      from c2 [OF u 2(1) 2(2) BanyR [OF 2(3)]] obtain g where "?L = Some g" "B g" by blast
      with Buniq [OF 2(3)] show ?thesis by blast
    qed
  qed
  have goal2: "?L = None \<longleftrightarrow> \<not> U \<or> noE \<and> \<not> (regex \<and> anyR)"
  proof
    assume L: "?L = None"
    show "\<not> U \<or> noE \<and> \<not> (regex \<and> anyR)"
    proof (rule ccontr)
      assume n: "\<not> (\<not> U \<or> noE \<and> \<not> (regex \<and> anyR))"
      then have u: U by blast
      show False
      proof (cases noE)
        case False
        from c1 [OF u False] L show False by auto
      next
        case True
        with n have "regex" "anyR" by blast+
        from c2 [OF u True this] L show False by auto
      qed
    qed
  next
    assume "\<not> U \<or> noE \<and> \<not> (regex \<and> anyR)"
    then show "?L = None" using c3 c4 by blast
  qed
  have e1: "(U \<and> (A i \<or> noE \<and> regex \<and> B i)) \<longleftrightarrow>
      (TokGetType (Token d) = UNDEFINED \<and> i < length (Entries d) \<and>
      (Keyword (Entries d ! i) = keyword \<and> (\<forall>k<i. Keyword (Entries d ! k) \<noteq> keyword)
       \<or> (\<forall>k<length (Entries d). Keyword (Entries d ! k) \<noteq> keyword) \<and> regex \<and>
         rex (Keyword (Entries d ! i)) keyword \<and>
         (\<forall>k<length (Entries d). i < k \<longrightarrow> \<not> rex (Keyword (Entries d ! k)) keyword)))"
    unfolding U_def A_def B_def noE_def by blast
  have e2: "(\<not> U \<or> noE \<and> \<not> (regex \<and> anyR)) \<longleftrightarrow>
      (TokGetType (Token d) \<noteq> UNDEFINED \<or>
      (\<forall>k<length (Entries d). Keyword (Entries d ! k) \<noteq> keyword) \<and>
      \<not> (regex \<and> (\<exists>k<length (Entries d). rex (Keyword (Entries d ! k)) keyword)))"
    unfolding U_def noE_def anyR_def by blast
  from goal1 goal2 show ?thesis unfolding e1 e2 by (rule conjI)
qed

theorem Lookup_first_exact_else_last_regex_witness:
  "Lookup rex0 dict0 ''inner'' True = Some 2 \<and>
   rex0 (Keyword (Entries dict0 ! 2)) ''inner'' \<and>
   Keyword (Entries dict0 ! 2) \<noteq> ''inner'' \<and>
   TokGetType (Token dict0) = UNDEFINED"
proof -
  have A: "Lookup rex0 dict0 ''inner'' True = Some 2"
    by (simp add: Lookup_def dict0_def rex0_def)
  have B: "Keyword (Entries dict0 ! 2) \<noteq> ''inner''"
    by (simp add: dict0_def)
  note T = Lookup_first_exact_else_last_regex [of rex0 dict0 "''inner''" True 2,
      THEN conjunct1, THEN iffD1, OF A]
  from T B have "rex0 (Keyword (Entries dict0 ! 2)) ''inner'' \<and>
      TokGetType (Token dict0) = UNDEFINED"
    by blast
  with A B show ?thesis by blast
qed

section \<open>Properties of the boundary collection\<close>

lemma vtkIdType_range: "- 9223372036854775808 \<le> vtkIdType x \<and> vtkIdType x < 9223372036854775808"
  by (simp add: vtkIdType_def)


lemma vtkIdType_sum_negative:
  assumes "0 \<le> a" "a < 9223372036854775808" "0 \<le> b" "b < 9223372036854775808"
    and "9223372036854775808 \<le> a + b"
  shows "vtkIdType (a + b) < 0"
proof -
  have "(a + b + 9223372036854775808) mod 18446744073709551616 = a + b - 9223372036854775808"
    using assms by (simp add: mod_pos_geq)
  then show ?thesis using assms by (simp add: vtkIdType_def)
qed

lemma dictStartFace_range: "dictStartFace d < 9223372036854775808"
  using vtkIdType_range by (simp add: dictStartFace_def split: option.splits)

lemma dictNFaces_range: "dictNFaces d < 9223372036854775808"
  using vtkIdType_range by (simp add: dictNFaces_def split: option.splits)


lemma dictEndFace_wrapped:
  "0 \<le> dictStartFace d \<Longrightarrow> 0 \<le> dictNFaces d \<Longrightarrow>
   9223372036854775808 \<le> dictStartFace d + dictNFaces d \<Longrightarrow> dictEndFace d < 0"
  unfolding dictEndFace_def
  by (rule vtkIdType_sum_negative) (simp_all add: dictStartFace_range dictNFaces_range)












lemma update_boundary1:
  "fst (update boundary1) = False \<and>
   error_msg (snd (update boundary1)) = InconsistentEndFace 9 ''inlet'' 11 ''walls''"
  by (simp add: update_def boundary1_def patchDict0_def LookupEntry_def Lookup_def
      EntryToInt_def EntryToString_def defaultPatch_def endFace_def Let_def vtkIdType_def)




lemma whichPatch_loop_bounds:
  "sorted (map patch_start ps) \<Longrightarrow> first + count \<le> length ps \<Longrightarrow>
   first \<le> whichPatch_loop ps faceIndex first count \<and>
   whichPatch_loop ps faceIndex first count \<le> first + count \<and>
   (\<forall>k. first \<le> k \<and> k < whichPatch_loop ps faceIndex first count \<longrightarrow>
        patch_start (ps ! k) \<le> faceIndex) \<and>
   (\<forall>k. whichPatch_loop ps faceIndex first count \<le> k \<and> k < first + count \<longrightarrow>
        faceIndex < patch_start (ps ! k))"
proof (induction ps faceIndex first count rule: whichPatch_loop.induct)
  case (1 ps faceIndex first count)
  show ?case
  proof (cases "count > 0")
    case False
    then have c0: "count = 0" by simp
    have "whichPatch_loop ps faceIndex first 0 = first"
      by (subst whichPatch_loop.simps) simp
    then show ?thesis by (simp add: c0)
  next
    case True
    define step where "step = count div 2"
    define iter where "iter = first + step"
    have it: "iter < length ps" using True "1.prems"(2) by (simp add: iter_def step_def; linarith)
    have mono: "patch_start (ps ! a) \<le> patch_start (ps ! b)" if "a \<le> b" "b < length ps" for a b
      using sorted_nth_mono [OF "1.prems"(1), of a b] that by simp
    show ?thesis
    proof (cases "patch_start (ps ! iter) \<le> faceIndex")
      case le: True
      have eq: "whichPatch_loop ps faceIndex first count =
          whichPatch_loop ps faceIndex (Suc iter) (count - (step + 1))"
        using True le
        by (subst whichPatch_loop.simps) (simp add: Let_def step_def iter_def)
      have b: "Suc iter + (count - (step + 1)) \<le> length ps"
        using "1.prems"(2) True by (simp add: iter_def step_def; linarith)
      note IH = "1.IH"(1) [OF True step_def iter_def le "1.prems"(1) b]
      have s: "Suc iter + (count - (step + 1)) = first + count"
        using True by (simp add: iter_def step_def; linarith)
      show ?thesis unfolding eq
      proof (intro conjI allI impI)
        show "first \<le> whichPatch_loop ps faceIndex (Suc iter) (count - (step + 1))"
          using IH by (simp add: iter_def)
        show "whichPatch_loop ps faceIndex (Suc iter) (count - (step + 1)) \<le> first + count"
          using IH s by simp
      next
        fix k assume k: "first \<le> k \<and> k < whichPatch_loop ps faceIndex (Suc iter) (count - (step + 1))"
        show "patch_start (ps ! k) \<le> faceIndex"
        proof (cases "k \<le> iter")
          case True
          from mono [OF True it] le show ?thesis by simp
        next
          case False
          then have "Suc iter \<le> k" by simp
          with IH k show ?thesis by blast
        qed
      next
        fix k assume k: "whichPatch_loop ps faceIndex (Suc iter) (count - (step + 1)) \<le> k
          \<and> k < first + count"
        with IH s show "faceIndex < patch_start (ps ! k)" by simp
      qed
    next
      case gt: False
      have eq: "whichPatch_loop ps faceIndex first count = whichPatch_loop ps faceIndex first step"
        using True gt
        by (subst whichPatch_loop.simps) (simp add: Let_def step_def iter_def)
      have b: "first + step \<le> length ps" using it by (simp add: iter_def)
      note IH = "1.IH"(2) [OF True step_def iter_def gt "1.prems"(1) b]
      show ?thesis unfolding eq
      proof (intro conjI allI impI)
        show "first \<le> whichPatch_loop ps faceIndex first step" using IH by simp
        show "whichPatch_loop ps faceIndex first step \<le> first + count"
          using IH by (simp add: step_def; linarith)
      next
        fix k assume "first \<le> k \<and> k < whichPatch_loop ps faceIndex first step"
        with IH show "patch_start (ps ! k) \<le> faceIndex" by blast
      next
        fix k assume k: "whichPatch_loop ps faceIndex first step \<le> k \<and> k < first + count"
        show "faceIndex < patch_start (ps ! k)"
        proof (cases "k < first + step")
          case True
          with IH k show ?thesis by blast
        next
          case False
          then have "iter \<le> k" by (simp add: iter_def)
          moreover have "k < length ps" using k "1.prems"(2) by simp
          ultimately have "patch_start (ps ! iter) \<le> patch_start (ps ! k)" by (rule mono)
          with gt show ?thesis by simp
        qed
      qed
    qed
  qed
qed

lemma whichPatch_returns_later_patch:
  assumes "sorted (map patch_start ps)"
    and "whichPatch ps faceIndex \<noteq> -1"
  shows "\<exists>r<length ps. whichPatch ps faceIndex = patch_index (ps ! r) \<and>
           faceIndex < patch_start (ps ! r)"
proof -
  let ?r = "whichPatch_loop ps faceIndex 0 (length ps)"
  from assms(2) have r: "?r \<noteq> length ps" and w: "whichPatch ps faceIndex = patch_index (ps ! ?r)"
    by (auto simp: whichPatch_def Let_def split: if_splits)
  from whichPatch_loop_bounds [OF assms(1), of 0 "length ps" faceIndex]
  have b: "?r \<le> length ps" and u: "\<forall>k. ?r \<le> k \<and> k < length ps \<longrightarrow> faceIndex < patch_start (ps ! k)"
    by simp_all
  from r b have lt: "?r < length ps" by simp
  with u have "faceIndex < patch_start (ps ! ?r)" by blast
  with lt w show ?thesis by blast
qed

text \<open>
  Claim C4. The claim is that \<^verbatim>\<open>whichPatch\<close> returns the index of the patch that contains
  the face. The search compares \<^verbatim>\<open>iter->start_ <= faceIndex\<close>, so it stops at the first
  patch that starts after the face (lemma \<open>whichPatch_returns_later_patch\<close>). On the
  validated collection of two patches, faces 0 to 9 and 10 to 14, face 3 of patch 0 gives
  index 1, and faces 12 and 10 of patch 1 give \<open>-1\<close>.
\<close>

theorem whichPatch_scenario:
  "whichPatch patches0 3 = 1 \<and> whichPatch patches0 12 = -1 \<and> whichPatch patches0 10 = -1"
proof -
  have l0: "whichPatch_loop ps f first 0 = first" for ps f first
    by (subst whichPatch_loop.simps) simp
  have l1: "whichPatch_loop ps f first (Suc 0) =
      (if patch_start (ps ! first) \<le> f then Suc first else first)" for ps f first
    by (subst whichPatch_loop.simps) (simp add: Let_def l0)
  have l2: "whichPatch_loop ps f first (Suc (Suc 0)) =
      (if patch_start (ps ! Suc first) \<le> f then Suc (Suc first)
       else whichPatch_loop ps f first (Suc 0))" for ps f first
    by (subst whichPatch_loop.simps) (simp add: Let_def l0)
  show ?thesis
    by (simp add: whichPatch_def patches0_def startFace_def endFace_def vtkIdType_def Let_def
        l1 l2)
qed

section \<open>Properties of the symmTensor remap\<close>

lemma remapSymmTensor_explicit:
  "remapSymmTensor 0 [xx, xy, xz, yy, yz, zz] = [xx, yy, zz, xy, yz, xz]"
  by (simp add: remapSymmTensor_def std_swap_def)

lemma length_std_swap [simp]: "length (std_swap i j xs) = length xs"
  by (simp add: std_swap_def)

lemma length_remapSymmTensor [simp]: "length (remapSymmTensor b xs) = length xs"
  by (simp add: remapSymmTensor_def)

lemma length_remapTuples [simp]: "length (remapTuples n j k xs) = length xs"
  by (induction k arbitrary: j xs) simp_all

lemma nth_std_swap:
  "i < length xs \<Longrightarrow> j < length xs \<Longrightarrow> k < length xs \<Longrightarrow>
   std_swap i j xs ! k = (if k = j then xs ! i else if k = i then xs ! j else xs ! k)"
  by (simp add: std_swap_def nth_list_update)

lemma nth_remapSymmTensor:
  assumes "b + 5 < length xs" "k < length xs"
  shows "remapSymmTensor b xs ! k =
    (if k = b + 1 then xs ! (b + 3) else if k = b + 3 then xs ! (b + 1)
     else if k = b + 2 then xs ! (b + 5) else if k = b + 5 then xs ! (b + 2) else xs ! k)"
  using assms by (simp add: remapSymmTensor_def nth_std_swap)

lemma remapSymmTensor_involution:
  assumes "b + 5 < length xs"
  shows "remapSymmTensor b (remapSymmTensor b xs) = xs"
proof (rule nth_equalityI)
  show "length (remapSymmTensor b (remapSymmTensor b xs)) = length xs" by simp
next
  fix k assume "k < length (remapSymmTensor b (remapSymmTensor b xs))"
  then have k: "k < length xs" by simp
  show "remapSymmTensor b (remapSymmTensor b xs) ! k = xs ! k"
    using assms k by (simp add: nth_remapSymmTensor)
qed

lemma tuple_remapSymmTensor:
  assumes "6 * j + 5 < length xs"
  shows "take 6 (drop (6 * i) (remapSymmTensor (6 * j) xs)) =
    (if i = j then remapSymmTensor 0 (take 6 (drop (6 * i) xs)) else take 6 (drop (6 * i) xs))"
proof (rule nth_equalityI)
  show "length (take 6 (drop (6 * i) (remapSymmTensor (6 * j) xs))) =
    length (if i = j then remapSymmTensor 0 (take 6 (drop (6 * i) xs)) else take 6 (drop (6 * i) xs))"
    by simp
next
  fix k assume "k < length (take 6 (drop (6 * i) (remapSymmTensor (6 * j) xs)))"
  then have k: "k < 6" "6 * i + k < length xs" by auto
  show "take 6 (drop (6 * i) (remapSymmTensor (6 * j) xs)) ! k =
    (if i = j then remapSymmTensor 0 (take 6 (drop (6 * i) xs)) else take 6 (drop (6 * i) xs)) ! k"
  proof (cases "i = j")
    case True
    have l6: "length (take 6 (drop (6 * i) xs)) = 6" using assms True by simp
    have "remapSymmTensor 0 (take 6 (drop (6 * i) xs)) ! k =
      (if k = 1 then take 6 (drop (6 * i) xs) ! 3 else if k = 3 then take 6 (drop (6 * i) xs) ! 1
       else if k = 2 then take 6 (drop (6 * i) xs) ! 5 else if k = 5 then take 6 (drop (6 * i) xs) ! 2
       else take 6 (drop (6 * i) xs) ! k)"
      using nth_remapSymmTensor [of 0 "take 6 (drop (6 * i) xs)" k] l6 k by simp
    moreover have "remapSymmTensor (6 * j) xs ! (6 * i + k) =
      (if k = 1 then xs ! (6 * i + 3) else if k = 3 then xs ! (6 * i + 1)
       else if k = 2 then xs ! (6 * i + 5) else if k = 5 then xs ! (6 * i + 2) else xs ! (6 * i + k))"
      using nth_remapSymmTensor [of "6 * j" xs "6 * i + k"] assms k True by simp
    ultimately show ?thesis using True k assms by (simp add: add.commute)
  next
    case False
    have "remapSymmTensor (6 * j) xs ! (6 * i + k) = xs ! (6 * i + k)"
      using nth_remapSymmTensor [of "6 * j" xs "6 * i + k"] assms k False by auto
    then show ?thesis using False k by (simp add: add.commute)
  qed
qed

lemma tuple_remapTuples:
  "6 * (j + k) \<le> length xs \<Longrightarrow>
   take 6 (drop (6 * i) (remapTuples 6 j k xs)) =
    (if j \<le> i \<and> i < j + k then remapSymmTensor 0 (take 6 (drop (6 * i) xs))
     else take 6 (drop (6 * i) xs))"
proof (induction k arbitrary: j xs)
  case 0
  show ?case by auto
next
  case (Suc k)
  have b: "6 * j + 5 < length xs" using Suc.prems by simp
  have "6 * (Suc j + k) \<le> length (remapSymmTensor (6 * j) xs)" using Suc.prems by simp
  from Suc.IH [OF this] show ?case
    using tuple_remapSymmTensor [OF b, of i] by (auto simp: less_Suc_eq_le)
qed


lemma length_concat_replicate: "length (concat (replicate m t)) = m * length t"
  by (induction m) simp_all

lemma tuple_concat_replicate:
  "length t = n \<Longrightarrow> i < m \<Longrightarrow> take n (drop (n * i) (concat (replicate m t))) = t"
proof (induction m arbitrary: i)
  case 0
  then show ?case by simp
next
  case (Suc m)
  show ?case
  proof (cases i)
    case 0
    then show ?thesis using Suc.prems by simp
  next
    case (Suc i')
    then have "i' < m" using Suc.prems by simp
    from Suc.IH [OF Suc.prems(1) this] show ?thesis using Suc Suc.prems(1) by simp
  qed
qed

lemma FillUniformTuple_symm:
  assumes "FillUniformTuple (length tuple) tuple nElements dtype = Inr data"
    and "NumberOfComponents data = 6"
  shows "GetNumberOfTuples data = nat nElements"
    and "i < GetNumberOfTuples data \<Longrightarrow> GetTuple data i = remapSymmTensor 0 tuple"
proof -
  from assms have l: "length tuple = 6"
    by (auto simp: FillUniformTuple_def Let_def split: if_splits)
  from assms l have d: "data = \<lparr>NumberOfComponents = 6,
      FloatValues = concat (replicate (nat nElements) (remapSymmTensor 0 tuple))\<rparr>"
    by (auto simp: FillUniformTuple_def Let_def split: if_splits)
  show n: "GetNumberOfTuples data = nat nElements"
    using l by (simp add: d GetNumberOfTuples_def length_concat_replicate)
  assume "i < GetNumberOfTuples data"
  then have "i < nat nElements" using n by simp
  then show "GetTuple data i = remapSymmTensor 0 tuple"
    using l by (simp add: d GetTuple_def tuple_concat_replicate)
qed

lemma FillNonuniform_symm:
  assumes "FillNonuniform n vl nElements = Inr data"
    and "NumberOfComponents data = 6"
  shows "GetNumberOfTuples data = nat nElements"
    and "i < GetNumberOfTuples data \<Longrightarrow>
         GetTuple data i = remapSymmTensor 0 (take n (drop (n * i) vl))"
proof -
  from assms have n: "n = 6" and ne: "int (length vl div 6) = nElements"
    by (auto simp: FillNonuniform_def Let_def split: if_splits)
  from assms n have d: "data = \<lparr>NumberOfComponents = 6,
      FloatValues = remapTuples 6 0 (length vl div 6) vl\<rparr>"
    by (auto simp: FillNonuniform_def Let_def split: if_splits)
  show nt: "GetNumberOfTuples data = nat nElements"
    using ne by (auto simp add: d GetNumberOfTuples_def)
  assume "i < GetNumberOfTuples data"
  then have i: "i < length vl div 6" using nt ne by auto
  have "6 * (0 + length vl div 6) \<le> length vl" by simp
  from tuple_remapTuples [OF this, of i] i show
    "GetTuple data i = remapSymmTensor 0 (take n (drop (n * i) vl))"
    by (simp add: d GetTuple_def n)
qed

lemma FillField_uniform_example:
  "FillField conv0 symmUniform0 2 SYMM_TENSOR_TYPE =
     Inr \<lparr>NumberOfComponents = 6,
          FloatValues = [11, 22, 33, 12, 23, 13, 11, 22, 33, 12, 23, 13]\<rparr>"
  by (simp add: symmUniform0_def conv0_def IsVectorSpace_def GetNumberOfComponents_def
      FillUniformTuple_def Let_def remapSymmTensor_def std_swap_def numeral_2_eq_2)

lemma FillField_uniform_scalars:
  assumes "length sl = 6"
  shows "FillField cv (Entry keyword (EntryValue True (ScalarListD sl) # vs)) nElements
           SYMM_TENSOR_TYPE =
         Inr \<lparr>NumberOfComponents = 6,
              FloatValues = concat (replicate (nat nElements) (remapSymmTensor 0 sl))\<rparr>"
  using assms
  by (simp add: FillUniformTuple_def GetNumberOfComponents_def IsVectorSpace_def)

lemma FillField_uniform_labels:
  assumes "length ll = 6"
  shows "FillField cv (Entry keyword (EntryValue True (LabelListD ll) # vs)) nElements
           SYMM_TENSOR_TYPE =
         Inr \<lparr>NumberOfComponents = 6,
              FloatValues = concat (replicate (nat nElements)
                              (remapSymmTensor 0 (map (ofLabel cv) ll)))\<rparr>"
  using assms
  by (simp add: FillUniformTuple_def GetNumberOfComponents_def IsVectorSpace_def)

lemma FillField_nonuniform_vectors:
  assumes "int (length vl div 6) = nElements"
  shows "FillField cv (Entry keyword (EntryValue False (VectorListD 6 vl) # vs)) nElements
           SYMM_TENSOR_TYPE =
         Inr \<lparr>NumberOfComponents = 6,
              FloatValues = remapTuples 6 0 (length vl div 6) vl\<rparr>"
  using assms
  by (simp add: FillNonuniform_def GetNumberOfComponents_def IsVectorSpace_def Let_def)

lemma remapTuples_tuples:
  assumes "i < length vl div 6"
  shows "GetTuple \<lparr>NumberOfComponents = 6,
              FloatValues = remapTuples 6 0 (length vl div 6) vl\<rparr> i =
         remapSymmTensor 0 (take 6 (drop (6 * i) vl))"
proof -
  have "6 * (0 + length vl div 6) \<le> length vl" by simp
  from tuple_remapTuples [OF this, of i] assms show ?thesis
    by (simp add: GetTuple_def)
qed

lemma remapTuples_rest:
  "drop (6 * (j + k)) (remapTuples 6 j k xs) = drop (6 * (j + k)) xs"
proof (induction k arbitrary: j xs)
  case 0
  show ?case by simp
next
  case (Suc k)
  have "drop (6 * (Suc j + k)) (remapSymmTensor (6 * j) xs) = drop (6 * (Suc j + k)) xs"
    by (rule nth_equalityI) (simp_all add: remapSymmTensor_def std_swap_def)
  with Suc.IH [of "Suc j" "remapSymmTensor (6 * j) xs"] show ?case by simp
qed

text \<open>
  Claim C8. For a symmTensor field \<^verbatim>\<open>FillField\<close> returns an array of 6-component tuples in
  which every tuple is the tuple of the entry with components 1 and 3 and components 2 and
  5 exchanged. For a uniform entry (a list of six scalars, or of six labels converted to
  \<^verbatim>\<open>float\<close>) the array consists of \<^verbatim>\<open>nElements\<close> copies of the remapped tuple; for a
  nonuniform list of 6-component tuples whose number is \<^verbatim>\<open>nElements\<close> the array has the
  same length, tuple \<open>i\<close> is the remapped tuple \<open>i\<close> of the list, and values after the last
  complete tuple are kept. Conversely every array of 6-component tuples that \<^verbatim>\<open>FillField\<close>
  returns for any entry and field type has \<^verbatim>\<open>nElements\<close> tuples, each the remapped tuple of
  the entry. The two swaps send (XX, XY, XZ, YY, YZ, ZZ) to (XX, YY, ZZ, XY, YZ, XZ), and
  applying them twice to a 6-tuple gives the tuple back. (The swaps are made in place: for
  a uniform scalar list and for a nonuniform list the storage of the entry itself is
  remapped, and the returned array of a nonuniform list is that storage.)
\<close>

theorem FillField_remaps_symmTensor:
  "(FillField cv (Entry keyword (v # vs)) nElements fieldDataType = Inr data \<and>
    NumberOfComponents data = 6 \<longrightarrow>
      GetNumberOfTuples data = nat nElements \<and>
      (\<forall>i < GetNumberOfTuples data. GetTuple data i = remapSymmTensor 0 (sourceTuple cv v i)))
   \<and> remapSymmTensor 0 [xx, xy, xz, yy, yz, zz] = [xx, yy, zz, xy, yz, xz]
   \<and> (length t = 6 \<longrightarrow> remapSymmTensor 0 (remapSymmTensor 0 t) = t)
   \<and> (length sl = 6 \<longrightarrow>
        FillField cv (Entry keyword (EntryValue True (ScalarListD sl) # vs)) nElements
          SYMM_TENSOR_TYPE =
        Inr \<lparr>NumberOfComponents = 6,
             FloatValues = concat (replicate (nat nElements) (remapSymmTensor 0 sl))\<rparr> \<and>
        GetNumberOfTuples \<lparr>NumberOfComponents = 6,
             FloatValues = concat (replicate (nat nElements) (remapSymmTensor 0 sl))\<rparr> =
          nat nElements \<and>
        (\<forall>i < nat nElements.
           GetTuple \<lparr>NumberOfComponents = 6,
             FloatValues = concat (replicate (nat nElements) (remapSymmTensor 0 sl))\<rparr> i =
           remapSymmTensor 0 sl))
   \<and> (length ll = 6 \<longrightarrow>
        FillField cv (Entry keyword (EntryValue True (LabelListD ll) # vs)) nElements
          SYMM_TENSOR_TYPE =
        Inr \<lparr>NumberOfComponents = 6,
             FloatValues = concat (replicate (nat nElements)
                             (remapSymmTensor 0 (map (ofLabel cv) ll)))\<rparr>)
   \<and> (int (length vl div 6) = nElements \<longrightarrow>
        FillField cv (Entry keyword (EntryValue False (VectorListD 6 vl) # vs)) nElements
          SYMM_TENSOR_TYPE =
        Inr \<lparr>NumberOfComponents = 6, FloatValues = remapTuples 6 0 (length vl div 6) vl\<rparr> \<and>
        length (remapTuples 6 0 (length vl div 6) vl) = length vl \<and>
        (\<forall>i < length vl div 6.
           GetTuple \<lparr>NumberOfComponents = 6,
             FloatValues = remapTuples 6 0 (length vl div 6) vl\<rparr> i =
           remapSymmTensor 0 (take 6 (drop (6 * i) vl))) \<and>
        drop (6 * (length vl div 6)) (remapTuples 6 0 (length vl div 6) vl) =
          drop (6 * (length vl div 6)) vl)"
proof -
  have explicit: "remapSymmTensor 0 [xx, xy, xz, yy, yz, zz] = [xx, yy, zz, xy, yz, xz]"
    by (rule remapSymmTensor_explicit)
  have invol: "length t = 6 \<longrightarrow> remapSymmTensor 0 (remapSymmTensor 0 t) = t"
    by (simp add: remapSymmTensor_involution)
  have conv: "GetNumberOfTuples data = nat nElements \<and>
      (\<forall>i < GetNumberOfTuples data. GetTuple data i = remapSymmTensor 0 (sourceTuple cv v i))"
    if a: "FillField cv (Entry keyword (v # vs)) nElements fieldDataType = Inr data \<and>
      NumberOfComponents data = 6"
  proof -
    obtain u p where v: "v = EntryValue u p" by (cases v)
    show ?thesis
    proof (cases u)
      case True
      from a True v have nt: "GetType v \<noteq> SCALAR \<and> GetType v \<noteq> LABEL"
        by (auto split: if_splits)
      show ?thesis
      proof (cases p)
        case (LabelListD ll)
        with a True v nt have
          "FillUniformTuple (length (map (ofLabel cv) ll)) (map (ofLabel cv) ll) nElements
             fieldDataType = Inr data"
          by (auto split: if_splits)
        from FillUniformTuple_symm [OF this] a True v LabelListD show ?thesis by simp
      next
        case (ScalarListD sl)
        with a True v nt have "FillUniformTuple (length sl) sl nElements fieldDataType = Inr data"
          by (auto split: if_splits)
        from FillUniformTuple_symm [OF this] a True v ScalarListD show ?thesis by simp
      qed (use a True v nt in \<open>auto split: if_splits\<close>)
    next
      case False
      show ?thesis
      proof (cases p)
        case (VectorListD n vl)
        with a False v have "FillNonuniform n vl nElements = Inr data"
          by (auto split: if_splits)
        from FillNonuniform_symm [OF this] a False v VectorListD show ?thesis by simp
      next
        case (ScalarListD sl)
        with a False v show ?thesis
          by (auto simp: FillNonuniform_def Let_def split: if_splits)
      next
        case EmptyListD
        with a False v show ?thesis
          by (auto simp: GetNumberOfTuples_def split: if_splits)
      qed (use a False v in \<open>auto split: if_splits\<close>)
    qed
  qed
  have uni: "FillField cv (Entry keyword (EntryValue True (ScalarListD sl) # vs)) nElements
          SYMM_TENSOR_TYPE =
        Inr \<lparr>NumberOfComponents = 6,
             FloatValues = concat (replicate (nat nElements) (remapSymmTensor 0 sl))\<rparr> \<and>
        GetNumberOfTuples \<lparr>NumberOfComponents = 6,
             FloatValues = concat (replicate (nat nElements) (remapSymmTensor 0 sl))\<rparr> =
          nat nElements \<and>
        (\<forall>i < nat nElements.
           GetTuple \<lparr>NumberOfComponents = 6,
             FloatValues = concat (replicate (nat nElements) (remapSymmTensor 0 sl))\<rparr> i =
           remapSymmTensor 0 sl)" if l: "length sl = 6"
    using l FillField_uniform_scalars [OF l]
    by (simp add: GetNumberOfTuples_def GetTuple_def length_concat_replicate
        tuple_concat_replicate)
  have unil: "length ll = 6 \<longrightarrow>
        FillField cv (Entry keyword (EntryValue True (LabelListD ll) # vs)) nElements
          SYMM_TENSOR_TYPE =
        Inr \<lparr>NumberOfComponents = 6,
             FloatValues = concat (replicate (nat nElements)
                             (remapSymmTensor 0 (map (ofLabel cv) ll)))\<rparr>"
    using FillField_uniform_labels by blast
  have non: "FillField cv (Entry keyword (EntryValue False (VectorListD 6 vl) # vs)) nElements
          SYMM_TENSOR_TYPE =
        Inr \<lparr>NumberOfComponents = 6, FloatValues = remapTuples 6 0 (length vl div 6) vl\<rparr> \<and>
        length (remapTuples 6 0 (length vl div 6) vl) = length vl \<and>
        (\<forall>i < length vl div 6.
           GetTuple \<lparr>NumberOfComponents = 6,
             FloatValues = remapTuples 6 0 (length vl div 6) vl\<rparr> i =
           remapSymmTensor 0 (take 6 (drop (6 * i) vl))) \<and>
        drop (6 * (length vl div 6)) (remapTuples 6 0 (length vl div 6) vl) =
          drop (6 * (length vl div 6)) vl" if n: "int (length vl div 6) = nElements"
    using FillField_nonuniform_vectors [OF n] remapTuples_tuples [of _ vl]
      remapTuples_rest [of 0 "length vl div 6" vl]
    by simp
  from explicit invol conv uni unil non show ?thesis by blast
qed

theorem FillField_remaps_symmTensor_witness:
  "FillField conv0 symmField0 2 SYMM_TENSOR_TYPE =
     Inr \<lparr>NumberOfComponents = 6,
          FloatValues = [11, 22, 33, 12, 23, 13, 110, 220, 330, 120, 230, 130]\<rparr> \<and>
   GetTuple \<lparr>NumberOfComponents = 6,
          FloatValues = [11, 22, 33, 12, 23, 13, 110, 220, 330, 120, 230, 130 :: int]\<rparr> 1
     = remapSymmTensor 0 [110, 120, 130, 220, 230, 330] \<and>
   FillField conv0 symmUniform0 2 SYMM_TENSOR_TYPE =
     Inr \<lparr>NumberOfComponents = 6,
          FloatValues = [11, 22, 33, 12, 23, 13, 11, 22, 33, 12, 23, 13]\<rparr>"
proof -
  let ?d = "\<lparr>NumberOfComponents = 6,
          FloatValues = [11, 22, 33, 12, 23, 13, 110, 220, 330, 120, 230, 130 :: int]\<rparr>"
  let ?vl = "[11, 12, 13, 22, 23, 33, 110, 120, 130, 220, 230, 330 :: int]"
  let ?sl = "[11, 12, 13, 22, 23, 33 :: int]"
  have n: "int (length ?vl div 6) = 2" by simp
  have r: "remapTuples 6 0 (length ?vl div 6) ?vl =
      [11, 22, 33, 12, 23, 13, 110, 220, 330, 120, 230, 130]"
    by (simp add: remapSymmTensor_def std_swap_def numeral_2_eq_2)
  note N = FillField_remaps_symmTensor [where cv = conv0 and keyword = "''internalField''"
      and vs = "[]" and nElements = 2 and vl = ?vl, THEN conjunct2, THEN conjunct2,
      THEN conjunct2, THEN conjunct2, THEN conjunct2, THEN mp, OF n, THEN conjunct1]
  have A: "FillField conv0 symmField0 2 SYMM_TENSOR_TYPE = Inr ?d"
    unfolding symmField0_def by (rule N [unfolded r])
  have B: "NumberOfComponents ?d = 6" by simp
  have C: "(1::nat) < GetNumberOfTuples ?d" by (simp add: GetNumberOfTuples_def)
  have S: "sourceTuple conv0 (EntryValue False (VectorListD 6 ?vl)) 1 =
      [110, 120, 130, 220, 230, 330]"
    by simp
  note T = FillField_remaps_symmTensor [of conv0 "''internalField''"
      "EntryValue False (VectorListD 6 ?vl)" "[]" 2 SYMM_TENSOR_TYPE ?d, THEN conjunct1, THEN mp,
      OF conjI [OF A [unfolded symmField0_def] B], THEN conjunct2, THEN spec, THEN mp, OF C]
  from T S have G: "GetTuple ?d 1 = remapSymmTensor 0 [110, 120, 130, 220, 230, 330]"
    by simp
  have l: "length ?sl = 6" by simp
  note U = FillField_remaps_symmTensor [where cv = conv0 and keyword = "''internalField''"
      and vs = "[]" and nElements = 2 and sl = ?sl, THEN conjunct2, THEN conjunct2,
      THEN conjunct2, THEN conjunct1, THEN mp, OF l, THEN conjunct1]
  have c: "concat (replicate (nat 2) (remapSymmTensor 0 ?sl)) =
      [11, 22, 33, 12, 23, 13, 11, 22, 33, 12, 23, 13]"
    by (simp add: remapSymmTensor_def std_swap_def numeral_2_eq_2)
  have V: "FillField conv0 symmUniform0 2 SYMM_TENSOR_TYPE =
     Inr \<lparr>NumberOfComponents = 6,
          FloatValues = [11, 22, 33, 12, 23, 13, 11, 22, 33, 12, 23, 13]\<rparr>"
    unfolding symmUniform0_def by (rule U [unfolded c])
  from A G V show ?thesis by blast
qed
section \<open>Properties of the label-list-list reader\<close>

lemma readDelimited_doubles:
  "\<exists>l'. readDelimited n (map LabelTok vs @ PunctuationTok CHR '')'' # rest) l =
      Inr (l', n + 2 * int (length vs), rest) \<and> Offsets l' = Offsets l"
proof (induction vs arbitrary: n l)
  case Nil
  then show ?case by simp
next
  case (Cons v vs)
  from Cons.IH [of "n + 1 + 1" "InsertValue n (To_int32 v) l"]
  show ?case by (auto simp: InsertValue_def algebra_simps)
qed

lemma ReadLabelListList_sized_example:
  "ReadLabelListList tokensSized = Inr (\<lparr>Offsets = [Some 0, Some 1], Data = [Some 5]\<rparr>, [])"
  by (simp add: ReadLabelListList_def tokensSized_def ResizeExact_def ResizeData_def
      SetOffset_def WritePointer_def SetValue_def padTo_def eval_nat_numeral)

lemma ReadLabelListList_mixed_example:
  "ReadLabelListList tokensMixed =
     Inr (\<lparr>Offsets = [Some 0, Some 4, Some 5],
            Data = [Some 5, None, Some 6, None, Some 7]\<rparr>, [])"
  by (simp add: ReadLabelListList_def tokensMixed_def ResizeExact_def ResizeData_def
      SetOffset_def WritePointer_def SetValue_def InsertValue_def padTo_def To_int32_def
      eval_nat_numeral)

text \<open>
  Claim C2. The claim is that sub-list \<open>i\<close> of the result holds exactly the written labels,
  with \<^verbatim>\<open>GetSize(i)\<close> their number, for size-prefixed and for token-delimited sub-lists.
  The token-delimited loop advances \<^verbatim>\<open>nTotalElems\<close> twice for each label (lemma
  \<open>readDelimited_doubles\<close>): for \<^verbatim>\<open>1 ( (5) )\<close> the single sub-list has size 2 and holds the
  label 5 followed by a position that was never written. The size-prefixed form
  \<^verbatim>\<open>1 ( 1 (5) )\<close> gives size 1 and the label 5 (lemma \<open>ReadLabelListList_sized_example\<close>).
\<close>

theorem ReadLabelListList_delimited_example:
  "ReadLabelListList tokensDelimited =
     Inr (\<lparr>Offsets = [Some 0, Some 2], Data = [Some 5, None]\<rparr>, []) \<and>
   GetSize \<lparr>Offsets = [Some 0, Some 2], Data = [Some 5, None]\<rparr> 0 = 2 \<and>
   GetCell \<lparr>Offsets = [Some 0, Some 2], Data = [Some 5, None]\<rparr> 0 = [Some 5, None]"
  by (simp add: ReadLabelListList_def tokensDelimited_def ResizeExact_def ResizeData_def
      SetOffset_def InsertValue_def padTo_def To_int32_def GetSize_def GetCell_def
      eval_nat_numeral upt_rec)

section \<open>Properties of the entry reader\<close>

lemma foldLabelPrefix_zero_empty:
  "foldLabelPrefix cv (pre @ [EntryValue u (Atom (LabelTok 0)), EntryValue u' EmptyListD]) =
     pre @ [EntryValue False EmptyListD]"
  by (simp add: foldLabelPrefix_def Let_def nth_append butlast_append)

lemma foldLabelPrefix_single: "foldLabelPrefix cv [v] = [v]"
  by (simp add: foldLabelPrefix_def)

lemma foldLabelPrefix_atom:
  "foldLabelPrefix cv (vs @ [EntryValue u (Atom t)]) = vs @ [EntryValue u (Atom t)]"
  by (cases t) (simp_all add: foldLabelPrefix_def Let_def)

lemma GetType_EMPTYLIST:
  "GetType v = EMPTYLIST \<longleftrightarrow> (\<exists>u. v = EntryValue u EmptyListD)"
proof (cases v)
  case (EntryValue u p)
  show ?thesis
  proof (cases p)
    case (Atom t)
    then show ?thesis using EntryValue by (cases t) simp_all
  qed (simp_all add: EntryValue)
qed

lemma ReadEntryValue_label:
  "ReadEntryValue a rd (LabelTok n # ts) = Inr (1, EntryValue False (Atom (LabelTok n)), ts)"
  by (simp add: ReadEntryValue_def)


lemma ReadEntryValue_semicolon:
  "ReadEntryValue a rd (PunctuationTok CHR '';'' # ts) =
     Inr (1, EntryValue False (Atom (PunctuationTok CHR '';'')), ts)"
  by (simp add: ReadEntryValue_def)


lemma ReadEntryValue_uniform_empty_list:
  "ReadEntryValue a rd (StringTok ''uniform'' # PunctuationTok CHR ''('' #
       PunctuationTok CHR '')'' # ts) =
     Inr (1, EntryValue True EmptyListD, ts)"
  by (simp add: ReadEntryValue_def ReadAfterUniform_def ReadList_def asValue_def)

lemma ReadEntryValue_nonuniform_zero:
  "ReadEntryValue True rd (StringTok ''nonuniform'' # LabelTok 0 # PunctuationTok CHR ''('' #
       PunctuationTok CHR '')'' # ts) =
     Inr (1, EntryValue False EmptyListD, ts)"
  by (simp add: ReadEntryValue_def ReadAfterNonuniform_def)


lemma ReadEntryValue_type_tag:
  "ReadEntryValue a rd (StringTok ''nonuniform'' # StringTok ''List<scalar>'' # ts) =
     Inr (k, v, ts')
   \<Longrightarrow> GetType v = SCALARLIST"
  by (auto simp: ReadEntryValue_def ReadAfterNonuniform_def asValue_def ReadNonuniformFloats_def
      split: sum.splits)

text \<open>
  \<^verbatim>\<open>vtkFoamEntryValue::Read\<close> returns 0 only for the keyword \<^verbatim>\<open>uniform\<close> or
  \<^verbatim>\<open>nonuniform\<close> followed by a semicolon; the value is then that keyword, a string.
\<close>

lemma asValue_ret0:
  "asValue u r = Inr (0::int, v, ts') \<Longrightarrow> GetType v = STRING"
  by (cases r) (auto simp: asValue_def)

lemma ReadAfterUniform_ret0:
  assumes "ReadAfterUniform rd ts = Inr (0::int, v, ts')"
  shows "GetType v = STRING"
proof (cases ts)
  case Nil
  with assms show ?thesis by (simp add: ReadAfterUniform_def)
next
  case (Cons t rest)
  have S: "GetType v = STRING"
    if "Inr (0::int, EntryValue False (Atom (StringTok ''uniform'')), rest) = Inr (0::int, v, ts')"
    using that by auto
  have A1: "GetType v = STRING" if "Inr (1::int, EntryValue True (Atom t), rest) = Inr (0::int, v, ts')"
    using that by simp
  have X: "GetType v = STRING" if "Inl ExpectedNumberStringOrParen = Inr (0::int, v, ts')"
    using that by simp
  from assms show ?thesis
    unfolding ReadAfterUniform_def Cons list.case
    by (elim if_resultE) (erule asValue_ret0 S A1 X)+
qed

lemma ReadAfterNonuniform_ret0:
  assumes "ReadAfterNonuniform a rd ts = Inr (0::int, v, ts')"
  shows "GetType v = STRING"
proof (cases ts)
  case Nil
  with assms show ?thesis by (simp add: ReadAfterNonuniform_def)
next
  case (Cons t rest)
  have E: "GetType v = STRING"
    if "(case ReadExpecting CHR ''('' rest of
                     Inl e \<Rightarrow> Inl e
                   | Inr ts2 \<Rightarrow>
                       (case ReadExpecting CHR '')'' ts2 of
                          Inl e \<Rightarrow> Inl e
                        | Inr ts3 \<Rightarrow> Inr (1::int, EntryValue False EmptyListD, ts3))) = Inr (0::int, v, ts')"
    using that by (auto split: sum.splits)
  have E': "GetType v = STRING"
    if "Inr (1::int, EntryValue False EmptyListD, rest) = Inr (0::int, v, ts')"
    using that by simp
  have S: "GetType v = STRING"
    if "Inr (0::int, EntryValue False (Atom (StringTok ''nonuniform'')), rest) = Inr (0::int, v, ts')"
    using that by auto
  have X: "GetType v = STRING" if "Inl UnsupportedNonuniformListType = Inr (0::int, v, ts')"
    using that by simp
  from assms show ?thesis
    unfolding ReadAfterNonuniform_def Cons list.case
    by (elim if_resultE) (erule asValue_ret0 E E' S X)+
qed

lemma ReadEntryValue_ret0:
  assumes "ReadEntryValue a rd ts = Inr (0::int, v, ts')"
  shows "GetType v = STRING"
proof (cases ts)
  case Nil
  with assms show ?thesis by (simp add: ReadEntryValue_def)
next
  case (Cons t rest)
  have D: "GetType v = STRING"
    if "(case ReadDictionaryP rd rest of
                     Inl e \<Rightarrow> Inl e
                   | Inr (d, k) \<Rightarrow> Inr (1::int, EntryValue False (DictionaryD d), drop k rest))
        = Inr (0::int, v, ts')"
    using that by (auto split: sum.splits)
  have DS: "GetType v = STRING"
    if "(case ReadDimensionSetP rd rest of
                     Inl e \<Rightarrow> Inl e
                   | Inr (dims, k) \<Rightarrow> Inr (1::int, EntryValue False (ScalarListD dims), drop k rest))
        = Inr (0::int, v, ts')"
    using that by (auto split: sum.splits)
  have A1: "GetType v = STRING"
    if "Inr (1::int, EntryValue False (Atom x), rest) = Inr (0::int, v, ts')" for x
    using that by simp
  from assms show ?thesis
    unfolding ReadEntryValue_def Cons list.case
    by (elim if_resultE)
       (erule asValue_ret0 D DS ReadAfterUniform_ret0 ReadAfterNonuniform_ret0 A1)+
qed

text \<open>
  One round of the loop for a value that is neither an identifier, nor a punctuation token,
  nor a dictionary: the loop goes on with the values after the special cases.
\<close>

lemma EntryRead_loop_label:
  "EntryRead_loop a rd cv upper vs (LabelTok n # ts) =
     EntryRead_loop a rd cv upper (vs @ [EntryValue False (Atom (LabelTok n))]) ts"
  by (subst EntryRead_loop.simps)
     (simp add: ReadEntryValue_label foldLabelPrefix_atom Let_def)

lemma EntryRead_loop_semicolon:
  "EntryRead_loop a rd cv upper vs (PunctuationTok CHR '';'' # ts) = Inr (vs, ts)"
  by (subst EntryRead_loop.simps)
     (simp add: ReadEntryValue_semicolon foldLabelPrefix_atom Let_def)


lemma EntryRead_loop_folds:
  assumes "ReadEntryValue a rd ts = Inr (ret, v, ts')" and "GetType v = EMPTYLIST"
  shows "EntryRead_loop a rd cv upper (pre @ [EntryValue u (Atom (LabelTok 0))]) ts =
     EntryRead_loop a rd cv upper (pre @ [EntryValue False EmptyListD]) ts'"
proof -
  from assms(2) obtain u' where v: "v = EntryValue u' EmptyListD"
    by (auto simp: GetType_EMPTYLIST)
  have ret: "ret \<noteq> 0"
  proof
    assume "ret = 0"
    with assms(1) have "GetType v = STRING" by (simp add: ReadEntryValue_ret0)
    with v show False by simp
  qed
  show ?thesis
    using assms(1) ret foldLabelPrefix_zero_empty [of cv pre u u']
    by (subst EntryRead_loop.simps) (simp add: v Let_def)
qed




lemma EntryRead_loop_zero_uniform_empty:
  "EntryRead_loop a rd cv upper pre
       (LabelTok 0 # StringTok ''uniform'' # PunctuationTok CHR ''('' #
        PunctuationTok CHR '')'' # rest) =
     EntryRead_loop a rd cv upper (pre @ [EntryValue False EmptyListD]) rest"
  unfolding EntryRead_loop_label
  by (rule EntryRead_loop_folds [OF ReadEntryValue_uniform_empty_list]) simp


lemma EntryRead_nonuniform_zero_list:
  "EntryRead True rd cv upper tokensNonuniformZeroList = Inr ([EntryValue False EmptyListD], [])"
  unfolding EntryRead_def tokensNonuniformZeroList_def
  by (subst EntryRead_loop.simps)
     (simp add: ReadEntryValue_nonuniform_zero foldLabelPrefix_single EntryRead_loop_semicolon)




section \<open>Properties of the cell shapes\<close>







lemma length_hexBasePoints [simp]:
  "length (hexBasePoints faceOwner meshFaces cellId cellFaces) = 4"
  by (simp add: hexBasePoints_def Let_def)


















subsection \<open>Polyhedra beyond the size limits\<close>











subsection \<open>The limits, exactly\<close>









section \<open>Properties of the cell faces\<close>

lemma fold_guarded:
  "fold (\<lambda>(facei, label) s. if label \<ge> (0::int) then visit facei label s else s) xs s =
   fold (\<lambda>e. visit (fst e) (snd e)) (filter (\<lambda>e. 0 \<le> snd e) xs) s"
  by (induction xs arbitrary: s) (auto simp: case_prod_beta)

lemma forEachFaceLabel_events:
  "forEachFaceLabel visit faceOwner faceNeigh s =
   fold (\<lambda>e. visit (fst e) (snd e))
     (filter (\<lambda>e. 0 \<le> snd e) (faceLabels faceOwner faceNeigh)) s"
  by (simp add: forEachFaceLabel_def fold_guarded)

lemma faceLabels_member:
  assumes "length faceNeigh \<le> length faceOwner"
  shows "(f, l) \<in> set (faceLabels faceOwner faceNeigh) \<longleftrightarrow>
    f < length faceOwner \<and> (l = faceOwner ! f \<or> f < length faceNeigh \<and> l = faceNeigh ! f)"
proof -
  have a: "(f, l) \<in> set (concat (map (\<lambda>facei. [(facei, faceOwner ! facei), (facei, faceNeigh ! facei)])
               [0..<length faceNeigh])) \<longleftrightarrow>
      f < length faceNeigh \<and> (l = faceOwner ! f \<or> l = faceNeigh ! f)"
    by auto
  have b: "(f, l) \<in> set (map (\<lambda>facei. (facei, faceOwner ! facei))
               [length faceNeigh..<length faceOwner]) \<longleftrightarrow>
      length faceNeigh \<le> f \<and> f < length faceOwner \<and> l = faceOwner ! f"
    by auto
  show ?thesis
    unfolding faceLabels_def set_append Un_iff a b using assms
    by (cases "f < length faceNeigh") auto
qed

lemma snd_faceLabels:
  assumes "length faceNeigh \<le> length faceOwner"
  shows "snd ` set (faceLabels faceOwner faceNeigh) = set faceOwner \<union> set faceNeigh"
proof (intro set_eqI iffI)
  fix l assume "l \<in> snd ` set (faceLabels faceOwner faceNeigh)"
  then obtain f where "(f, l) \<in> set (faceLabels faceOwner faceNeigh)" by auto
  then show "l \<in> set faceOwner \<union> set faceNeigh"
    using assms by (auto simp: faceLabels_member)
next
  fix l assume "l \<in> set faceOwner \<union> set faceNeigh"
  then consider f where "f < length faceOwner" "l = faceOwner ! f"
    | f where "f < length faceNeigh" "l = faceNeigh ! f"
    by (auto simp: in_set_conv_nth)
  then show "l \<in> snd ` set (faceLabels faceOwner faceNeigh)"
  proof cases
    case 1
    then have "(f, l) \<in> set (faceLabels faceOwner faceNeigh)"
      using assms by (simp add: faceLabels_member)
    then show ?thesis by force
  next
    case 2
    then have "(f, l) \<in> set (faceLabels faceOwner faceNeigh)"
      using assms by (simp add: faceLabels_member)
    then show ?thesis by force
  qed
qed

subsection \<open>The first pass\<close>

lemma fold_countLabel:
  "fold (\<lambda>e. countLabel (fst e) (snd e)) es (m, t) =
     (Max (insert m (snd ` set es)), t + int (length es))"
proof -
  have "fold (\<lambda>e. countLabel (fst e) (snd e)) es (m, t) =
      (fold max (map snd es) m, t + int (length es))"
    by (induction es arbitrary: m t) (simp_all add: countLabel_def max_def)
  moreover have "fold max (map snd es) m = Max (set (m # map snd es))"
    by (rule Max.set_eq_fold [symmetric])
  ultimately show ?thesis by simp
qed

subsection \<open>The second pass and the offsets\<close>

lemma fold_countOffset:
  assumes "Offsets cells = map Some os"
    and "\<forall>e\<in>set es. nat (1 + snd e) < length os"
  shows "\<exists>os'. Offsets (fold (\<lambda>e. countOffset (fst e) (snd e)) es cells) = map Some os' \<and>
      length os' = length os \<and>
      (\<forall>i<length os. os' ! i = os ! i + int (length (filter (\<lambda>e. nat (1 + snd e) = i) es))) \<and>
      Data (fold (\<lambda>e. countOffset (fst e) (snd e)) es cells) = Data cells"
  using assms
proof (induction es arbitrary: cells os)
  case Nil
  then show ?case by simp
next
  case (Cons e es)
  let ?k = "nat (1 + snd e)"
  let ?c1 = "countOffset (fst e) (snd e) cells"
  let ?os1 = "os[?k := os ! ?k + 1]"
  have k: "?k < length os" using Cons.prems(2) by simp
  have o1: "Offsets ?c1 = map Some ?os1"
    using Cons.prems(1) k by (simp add: countOffset_def IncrementOffset_def map_update)
  have d1: "Data ?c1 = Data cells" by (simp add: countOffset_def IncrementOffset_def)
  have b1: "\<forall>e\<in>set es. nat (1 + snd e) < length ?os1" using Cons.prems(2) by simp
  from Cons.IH [OF o1 b1] obtain os' where
    r: "Offsets (fold (\<lambda>e. countOffset (fst e) (snd e)) es ?c1) = map Some os'"
    and l: "length os' = length ?os1"
    and v: "\<forall>i<length ?os1. os' ! i =
        ?os1 ! i + int (length (filter (\<lambda>e. nat (1 + snd e) = i) es))"
    and d: "Data (fold (\<lambda>e. countOffset (fst e) (snd e)) es ?c1) = Data ?c1"
    by blast
  have "\<forall>i<length os. os' ! i =
      os ! i + int (length (filter (\<lambda>e. nat (1 + snd e) = i) (e # es)))"
  proof (intro allI impI)
    fix i assume i: "i < length os"
    with v have "os' ! i = ?os1 ! i + int (length (filter (\<lambda>e. nat (1 + snd e) = i) es))"
      by simp
    then show "os' ! i = os ! i + int (length (filter (\<lambda>e. nat (1 + snd e) = i) (e # es)))"
      using i k by (cases "?k = i") (simp_all add: nth_list_update)
  qed
  with r l d d1 show ?case by (intro exI [of _ os']) simp
qed

lemma reduceOffsets_sums:
  assumes "Offsets cells = map Some os" and "celli + n \<le> length os"
  shows "\<exists>os'. Offsets (reduceOffsets celli n currOffset cells) = map Some os' \<and>
      length os' = length os \<and>
      (\<forall>i<length os. os' ! i =
         (if celli \<le> i \<and> i < celli + n then currOffset + (\<Sum>j = celli..i. os ! j)
          else os ! i)) \<and>
      Data (reduceOffsets celli n currOffset cells) = Data cells"
  using assms
proof (induction n arbitrary: celli currOffset cells os)
  case 0
  then show ?case by simp
next
  case (Suc n)
  let ?curr = "currOffset + os ! celli"
  let ?os1 = "os[celli := ?curr]"
  let ?c1 = "SetOffset celli ?curr cells"
  have c: "celli < length os" using Suc.prems(2) by simp
  have g: "the (GetBeginOffset cells celli) = os ! celli"
    using Suc.prems(1) c by (simp add: GetBeginOffset_def)
  have o1: "Offsets ?c1 = map Some ?os1"
    using Suc.prems(1) c by (simp add: SetOffset_def map_update)
  have d1: "Data ?c1 = Data cells" by (simp add: SetOffset_def)
  have b1: "Suc celli + n \<le> length ?os1" using Suc.prems(2) by simp
  from Suc.IH [OF o1 b1, of ?curr] obtain os' where
    r: "Offsets (reduceOffsets (Suc celli) n ?curr ?c1) = map Some os'"
    and l: "length os' = length ?os1"
    and v: "\<forall>i<length ?os1. os' ! i =
         (if Suc celli \<le> i \<and> i < Suc celli + n then ?curr + (\<Sum>j = Suc celli..i. ?os1 ! j)
          else ?os1 ! i)"
    and d: "Data (reduceOffsets (Suc celli) n ?curr ?c1) = Data ?c1"
    by blast
  have "\<forall>i<length os. os' ! i =
         (if celli \<le> i \<and> i < celli + Suc n then currOffset + (\<Sum>j = celli..i. os ! j)
          else os ! i)"
  proof (intro allI impI)
    fix i assume i: "i < length os"
    show "os' ! i =
         (if celli \<le> i \<and> i < celli + Suc n then currOffset + (\<Sum>j = celli..i. os ! j)
          else os ! i)"
    proof (cases "Suc celli \<le> i \<and> i < Suc celli + n")
      case True
      have "(\<Sum>j = Suc celli..i. ?os1 ! j) = (\<Sum>j = Suc celli..i. os ! j)"
        by (rule sum.cong) simp_all
      moreover have "(\<Sum>j = celli..i. os ! j) = os ! celli + (\<Sum>j = Suc celli..i. os ! j)"
        using True by (simp add: sum.atLeast_Suc_atMost)
      ultimately show ?thesis using v i True by simp
    next
      case False
      show ?thesis
      proof (cases "i = celli")
        case True
        with v i c show ?thesis by simp
      next
        case ne: False
        with False have nr: "\<not> (celli \<le> i \<and> i < celli + Suc n)" by auto
        have il: "i < length ?os1" using i by simp
        from v [rule_format, OF il] have e: "os' ! i = ?os1 ! i"
          by (simp only: if_not_P [OF False])
        show ?thesis
          by (simp only: if_not_P [OF nr] e nth_list_update_neq [OF ne [symmetric]])
      qed
    qed
  qed
  with r l d d1 g show ?case by (intro exI [of _ os']) (simp add: Let_def)
qed

lemma sum_label_counts:
  assumes "\<forall>e\<in>set es. 0 \<le> snd e"
  shows "(\<Sum>j = 1..i. int (length (filter (\<lambda>e. nat (1 + snd e) = j) es))) =
    int (length (filter (\<lambda>e. nat (snd e) < i) es))"
proof (induction i)
  case 0
  then show ?case by simp
next
  case (Suc i)
  have "length (filter (\<lambda>e. nat (snd e) < Suc i) es) =
      length (filter (\<lambda>e. nat (snd e) < i) es) + length (filter (\<lambda>e. nat (1 + snd e) = Suc i) es)"
    using assms
  proof (induction es)
    case Nil
    then show ?case by simp
  next
    case (Cons e es)
    then have "0 \<le> snd e" by simp
    then have "nat (1 + snd e) = Suc (nat (snd e))" by simp
    with Cons show ?case by auto
  qed
  with Suc show ?case by simp
qed

subsection \<open>The third pass\<close>

lemma fold_addFace:
  assumes "Offsets tmpAddr = map Some ts"
    and "n \<le> length ts"
    and "\<forall>c<n. ts ! c = int (p c)"
    and "\<forall>e\<in>set es. 0 \<le> snd e \<and> nat (snd e) < n"
    and "\<forall>c<n. \<forall>c'<n. c < c' \<longrightarrow> p c + length (filter (\<lambda>e. nat (snd e) = c) es) \<le> p c'"
    and "\<forall>c<n. p c + length (filter (\<lambda>e. nat (snd e) = c) es) \<le> length (Data cells)"
  shows "Offsets (snd (fold (\<lambda>e. addFace (fst e) (snd e)) es (tmpAddr, cells))) = Offsets cells \<and>
      length (Data (snd (fold (\<lambda>e. addFace (fst e) (snd e)) es (tmpAddr, cells)))) =
        length (Data cells) \<and>
      (\<forall>c<n. \<forall>j<length (filter (\<lambda>e. nat (snd e) = c) es).
          Data (snd (fold (\<lambda>e. addFace (fst e) (snd e)) es (tmpAddr, cells))) ! (p c + j) =
            Some (int (fst (filter (\<lambda>e. nat (snd e) = c) es ! j)))) \<and>
      (\<forall>i. (\<forall>c<n. \<not> (p c \<le> i \<and> i < p c + length (filter (\<lambda>e. nat (snd e) = c) es))) \<longrightarrow>
          Data (snd (fold (\<lambda>e. addFace (fst e) (snd e)) es (tmpAddr, cells))) ! i =
            Data cells ! i)"
  using assms
proof (induction es arbitrary: tmpAddr cells ts p)
  case Nil
  then show ?case by simp
next
  case (Cons e es)
  define k where "k = nat (snd e)"
  define F where "F = (\<lambda>c. filter (\<lambda>e. nat (snd e) = c) es)"
  define G where "G = (\<lambda>c. filter (\<lambda>e. nat (snd e) = c) (e # es))"
  define p1 where "p1 = p(k := Suc (p k))"
  define ts1 where "ts1 = ts[k := ts ! k + 1]"
  define tmp1 where "tmp1 = IncrementOffset k tmpAddr"
  define cells1 where "cells1 = SetBodyValue (p k) (int (fst e)) cells"
  define r where "r = snd (fold (\<lambda>e. addFace (fst e) (snd e)) es (tmp1, cells1))"
  have kn: "k < n" using Cons.prems(4) by (simp add: k_def)
  have kl: "k < length ts" using kn Cons.prems(2) by simp
  have Gk: "G k = e # F k" by (simp add: G_def F_def k_def)
  have Gc: "G c = F c" if "c \<noteq> k" for c using that by (auto simp: G_def F_def k_def)
  have h5: "\<forall>c<n. \<forall>c'<n. c < c' \<longrightarrow> p c + length (G c) \<le> p c'"
    using Cons.prems(5) by (simp only: G_def)
  have h6: "\<forall>c<n. p c + length (G c) \<le> length (Data cells)"
    using Cons.prems(6) by (simp only: G_def)
  have nxt: "nat (the (GetBeginOffset tmpAddr k)) = p k"
    using Cons.prems(1,3) kn kl by (simp add: GetBeginOffset_def)
  have step: "fold (\<lambda>e. addFace (fst e) (snd e)) (e # es) (tmpAddr, cells) =
      fold (\<lambda>e. addFace (fst e) (snd e)) es (tmp1, cells1)"
    using nxt by (simp add: addFace_def Let_def tmp1_def cells1_def k_def)
  have o1: "Offsets tmp1 = map Some ts1"
    using Cons.prems(1) kl by (simp add: tmp1_def ts1_def IncrementOffset_def map_update)
  have n1: "n \<le> length ts1" using Cons.prems(2) by (simp add: ts1_def)
  have t1: "\<forall>c<n. ts1 ! c = int (p1 c)"
    using Cons.prems(3) kl by (auto simp: ts1_def p1_def nth_list_update)
  have e1: "\<forall>e\<in>set es. 0 \<le> snd e \<and> nat (snd e) < n" using Cons.prems(4) by simp
  have ends: "p1 c + length (F c) = p c + length (G c)" for c
    by (cases "c = k") (simp_all add: p1_def Gk Gc)
  have p1ge: "p c \<le> p1 c" for c by (simp add: p1_def)
  have d1: "Data cells1 = (Data cells)[p k := Some (int (fst e))]"
    by (simp add: cells1_def SetBodyValue_def)
  have l1: "length (Data cells1) = length (Data cells)" by (simp add: d1)
  have a5: "\<forall>c<n. \<forall>c'<n. c < c' \<longrightarrow> p1 c + length (filter (\<lambda>e. nat (snd e) = c) es) \<le> p1 c'"
  proof (intro allI impI)
    fix c c' assume c: "c < n" "c' < n" "c < c'"
    have "p1 c + length (F c) = p c + length (G c)" by (rule ends)
    also have "\<dots> \<le> p c'" using h5 c by blast
    also have "\<dots> \<le> p1 c'" by (rule p1ge)
    finally show "p1 c + length (filter (\<lambda>e. nat (snd e) = c) es) \<le> p1 c'"
      by (simp add: F_def)
  qed
  have a6: "\<forall>c<n. p1 c + length (filter (\<lambda>e. nat (snd e) = c) es) \<le> length (Data cells1)"
  proof (intro allI impI)
    fix c assume c: "c < n"
    have "p1 c + length (F c) = p c + length (G c)" by (rule ends)
    also have "\<dots> \<le> length (Data cells)" using h6 c by blast
    finally show "p1 c + length (filter (\<lambda>e. nat (snd e) = c) es) \<le> length (Data cells1)"
      by (simp add: F_def l1)
  qed
  have IH: "Offsets r = Offsets cells1 \<and> length (Data r) = length (Data cells1) \<and>
      (\<forall>c<n. \<forall>j<length (F c). Data r ! (p1 c + j) = Some (int (fst (F c ! j)))) \<and>
      (\<forall>i. (\<forall>c<n. \<not> (p1 c \<le> i \<and> i < p1 c + length (F c))) \<longrightarrow>
          Data r ! i = Data cells1 ! i)"
    unfolding r_def F_def by (rule Cons.IH [OF o1 n1 t1 e1 a5 a6])
  have ro: "Offsets r = Offsets cells1" using IH by (rule conjunct1)
  have rl: "length (Data r) = length (Data cells1)"
    using IH by (rule conjunct2 [THEN conjunct1])
  have rv: "\<forall>c<n. \<forall>j<length (F c). Data r ! (p1 c + j) = Some (int (fst (F c ! j)))"
    using IH by (rule conjunct2 [THEN conjunct2, THEN conjunct1])
  have ru: "\<forall>i. (\<forall>c<n. \<not> (p1 c \<le> i \<and> i < p1 c + length (F c))) \<longrightarrow>
          Data r ! i = Data cells1 ! i"
    using IH by (rule conjunct2 [THEN conjunct2, THEN conjunct2])
  have pk: "p k < length (Data cells)" using h6 kn Gk by fastforce
  have outside: "\<forall>c<n. \<not> (p1 c \<le> p k \<and> p k < p1 c + length (F c))"
  proof (intro allI impI)
    fix c assume c: "c < n"
    consider "c = k" | "c < k" | "k < c" by linarith
    then show "\<not> (p1 c \<le> p k \<and> p k < p1 c + length (F c))"
    proof cases
      case 1
      then show ?thesis by (simp add: p1_def)
    next
      case 2
      have "p1 c + length (F c) = p c + length (G c)" by (rule ends)
      also have "\<dots> \<le> p k" using h5 c kn 2 by blast
      finally show ?thesis by simp
    next
      case 3
      have "p k + length (G k) \<le> p c" using h5 c kn 3 by blast
      then have "p k < p c" by (simp add: Gk)
      also have "\<dots> \<le> p1 c" by (rule p1ge)
      finally show ?thesis by simp
    qed
  qed
  have "Data r ! p k = Data cells1 ! p k"
    using ru [THEN spec, of "p k"] outside by (rule mp)
  then have first: "Data r ! p k = Some (int (fst e))"
    using pk by (simp add: d1)
  have vals: "\<forall>c<n. \<forall>j<length (G c). Data r ! (p c + j) = Some (int (fst (G c ! j)))"
  proof (intro allI impI)
    fix c j assume c: "c < n" and j: "j < length (G c)"
    show "Data r ! (p c + j) = Some (int (fst (G c ! j)))"
    proof (cases "c = k")
      case True
      show ?thesis
      proof (cases j)
        case 0
        with True first show ?thesis by (simp add: Gk)
      next
        case (Suc j')
        with j True have "j' < length (F k)" by (simp add: Gk)
        with rv kn have "Data r ! (p1 k + j') = Some (int (fst (F k ! j')))" by blast
        with True Suc show ?thesis by (simp add: Gk p1_def)
      qed
    next
      case False
      with j have "j < length (F c)" by (simp add: Gc)
      with rv c have "Data r ! (p1 c + j) = Some (int (fst (F c ! j)))" by blast
      with False show ?thesis by (simp add: Gc p1_def)
    qed
  qed
  have unch: "\<forall>i. (\<forall>c<n. \<not> (p c \<le> i \<and> i < p c + length (G c))) \<longrightarrow>
          Data r ! i = Data cells ! i"
  proof (intro allI impI)
    fix i assume o: "\<forall>c<n. \<not> (p c \<le> i \<and> i < p c + length (G c))"
    have "\<forall>c<n. \<not> (p1 c \<le> i \<and> i < p1 c + length (F c))"
    proof (intro allI impI)
      fix c assume c: "c < n"
      from o c have "\<not> (p c \<le> i \<and> i < p c + length (G c))" by blast
      moreover have "p c \<le> p1 c" by (rule p1ge)
      moreover have "p1 c + length (F c) = p c + length (G c)" by (rule ends)
      ultimately show "\<not> (p1 c \<le> i \<and> i < p1 c + length (F c))" by linarith
    qed
    with ru have "Data r ! i = Data cells1 ! i" by blast
    moreover have "i \<noteq> p k" using o kn by (auto simp: Gk)
    ultimately show "Data r ! i = Data cells ! i" by (simp add: d1)
  qed
  have "Offsets r = Offsets cells" using ro by (simp add: cells1_def SetBodyValue_def)
  moreover have "length (Data r) = length (Data cells)" using rl l1 by simp
  ultimately have "Offsets r = Offsets cells \<and> length (Data r) = length (Data cells) \<and>
      (\<forall>c<n. \<forall>j<length (G c). Data r ! (p c + j) = Some (int (fst (G c ! j)))) \<and>
      (\<forall>i. (\<forall>c<n. \<not> (p c \<le> i \<and> i < p c + length (G c))) \<longrightarrow>
          Data r ! i = Data cells ! i)"
    using vals unch by (intro conjI)
  then show ?case unfolding step r_def G_def .
qed

subsection \<open>The list of the faces of each cell\<close>

lemma length_filter_less_Suc:
  "length (filter (\<lambda>e. nat (snd e) < Suc c) es) =
   length (filter (\<lambda>e. nat (snd e) < c) es) + length (filter (\<lambda>e. nat (snd e) = c) es)"
  by (induction es) auto

lemma length_filter_less_mono:
  "c \<le> c' \<Longrightarrow>
   length (filter (\<lambda>e. nat (snd e) < c) es) \<le> length (filter (\<lambda>e. nat (snd e) < (c'::nat)) es)"
  by (induction es) auto

lemma vtkIdType_small:
  "- 1 \<le> x \<Longrightarrow> x < 9223372036854775807 \<Longrightarrow> vtkIdType (x + 1) = x + 1"
  by (simp add: vtkIdType_def)

lemma map_nth_shift:
  assumes "\<forall>j<length xs. ys ! (a + j) = f (xs ! j)"
  shows "map (\<lambda>k. ys ! k) [a..<a + length xs] = map f xs"
proof (rule nth_equalityI)
  show "length (map (\<lambda>k. ys ! k) [a..<a + length xs]) = length (map f xs)" by simp
next
  fix j assume "j < length (map (\<lambda>k. ys ! k) [a..<a + length xs])"
  then have j: "j < length xs" by simp
  then show "map (\<lambda>k. ys ! k) [a..<a + length xs] ! j = map f xs ! j"
    using assms by simp
qed

text \<open>
  The result of \<^verbatim>\<open>CreateCellFaces\<close> in terms of the labels that are not negative, in the
  order of the passes: the number of cells, the offsets, and the faces of every cell.
\<close>

lemma CreateCellFaces_result:
  fixes faceOwner faceNeigh :: "int list"
  defines "es \<equiv> filter (\<lambda>e. 0 \<le> snd e) (faceLabels faceOwner faceNeigh)"
  defines "M \<equiv> Max (insert (- 1) (snd ` set es))"
  assumes bound: "\<forall>e\<in>set es. snd e < 9223372036854775807"
  shows "fst (CreateCellFaces faceOwner faceNeigh) = M + 1"
    and "0 \<le> M + 1"
    and "Offsets (snd (CreateCellFaces faceOwner faceNeigh)) =
      map (\<lambda>c. Some (int (length (filter (\<lambda>e. nat (snd e) < c) es)))) [0..<Suc (nat (M + 1))]"
    and "length (Data (snd (CreateCellFaces faceOwner faceNeigh))) = length es"
    and "\<forall>c<nat (M + 1). GetCell (snd (CreateCellFaces faceOwner faceNeigh)) c =
      map (\<lambda>e. Some (int (fst e))) (filter (\<lambda>e. nat (snd e) = c) es)"
proof -
  define n where "n = nat (M + 1)"
  define p where "p = (\<lambda>c. length (filter (\<lambda>e. nat (snd e) < c) es))"
  have pos: "\<forall>e\<in>set es. 0 \<le> snd e" by (simp add: es_def)
  have leM: "snd e \<le> M" if "e \<in> set es" for e
    unfolding M_def using that by (intro Max_ge) auto
  have M1: "- 1 \<le> M" unfolding M_def by (intro Max_ge) auto
  have Mb: "M < 9223372036854775807"
  proof -
    have "M \<in> insert (- 1) (snd ` set es)" unfolding M_def by (rule Max_in) auto
    with bound show ?thesis by auto
  qed
  have N: "vtkIdType (M + 1) = M + 1" using M1 Mb by (rule vtkIdType_small)
  show N0: "0 \<le> M + 1" using M1 by simp
  have key: "nat (snd e) < n" if "e \<in> set es" for e
    using leM [OF that] pos that by (auto simp: n_def)
  have pass1: "forEachFaceLabel countLabel faceOwner faceNeigh (- 1, 0) = (M, int (length es))"
    by (simp add: forEachFaceLabel_events fold_countLabel es_def [symmetric] M_def)
  define cells0 where "cells0 = ResetOffsets (ResizeExact (M + 1) (int (length es)))"
  define cells1 where "cells1 = forEachFaceLabel countOffset faceOwner faceNeigh cells0"
  define cells2 where "cells2 = reduceOffsets 1 n 0 cells1"
  define tmpAddr where "tmpAddr = (ResizeExact (M + 1) 1)\<lparr>Offsets := Offsets cells2\<rparr>"
  define r where "r = snd (forEachFaceLabel addFace faceOwner faceNeigh (tmpAddr, cells2))"
  have res: "CreateCellFaces faceOwner faceNeigh = (M + 1, r)"
    by (simp add: CreateCellFaces_def pass1 N Let_def r_def tmpAddr_def cells2_def cells1_def
        cells0_def n_def)
  show "fst (CreateCellFaces faceOwner faceNeigh) = M + 1" by (simp add: res)
  define os0 where "os0 = replicate (Suc n) (0::int)"
  have l0: "length os0 = Suc n" by (simp add: os0_def)
  have v0: "os0 ! i = 0" if "i < Suc n" for i
    using that unfolding os0_def by (rule nth_replicate)
  have nn: "nat (2 + M) = Suc n" using N0 by (simp add: n_def)
  have "map (\<lambda>v. Some (0::int)) ((replicate (nat (2 + M)) None)[0 := Some 0]) =
      map Some os0"
    unfolding nn os0_def by (simp add: map_update list_update_same_conv del: replicate_Suc)
  then have o0: "Offsets cells0 = map Some os0"
    by (simp add: cells0_def ResetOffsets_def ResizeExact_def)
  have d0: "Data cells0 = replicate (length es) None"
    by (simp add: cells0_def ResetOffsets_def ResizeExact_def)
  have b0: "\<forall>e\<in>set es. nat (1 + snd e) < length os0"
  proof
    fix e assume e: "e \<in> set es"
    then have "0 \<le> snd e" using pos by blast
    then have "nat (1 + snd e) = Suc (nat (snd e))" by simp
    with key [OF e] show "nat (1 + snd e) < length os0" by (simp add: l0)
  qed
  have c1: "cells1 = fold (\<lambda>e. countOffset (fst e) (snd e)) es cells0"
    by (simp add: cells1_def forEachFaceLabel_events es_def [symmetric])
  from fold_countOffset [OF o0 b0, folded c1] obtain os1 where
    o1: "Offsets cells1 = map Some os1" and l1': "length os1 = length os0"
    and v1': "\<forall>i<length os0. os1 ! i =
        os0 ! i + int (length (filter (\<lambda>e. nat (1 + snd e) = i) es))"
    and d1: "Data cells1 = Data cells0"
    by blast
  have l1: "length os1 = Suc n" using l1' l0 by simp
  have v1: "\<forall>i<Suc n. os1 ! i = int (length (filter (\<lambda>e. nat (1 + snd e) = i) es))"
    using v1' v0 l0 by simp
  have b1: "1 + n \<le> length os1" using l1 by simp
  from reduceOffsets_sums [OF o1 b1, of 0, folded cells2_def] obtain os2 where
    o2: "Offsets cells2 = map Some os2" and l2': "length os2 = length os1"
    and v2': "\<forall>i<length os1. os2 ! i =
         (if 1 \<le> i \<and> i < 1 + n then 0 + (\<Sum>j = 1..i. os1 ! j) else os1 ! i)"
    and d2: "Data cells2 = Data cells1"
    by blast
  have l2: "length os2 = Suc n" using l2' l1 by simp
  have v2: "\<forall>i<Suc n. os2 ! i =
         (if 1 \<le> i \<and> i < 1 + n then 0 + (\<Sum>j = 1..i. os1 ! j) else os1 ! i)"
    using v2' l1 by simp
  have offs: "os2 ! i = int (p i)" if i: "i < Suc n" for i
  proof (cases "1 \<le> i")
    case True
    have "(\<Sum>j = 1..i. os1 ! j) =
        (\<Sum>j = 1..i. int (length (filter (\<lambda>e. nat (1 + snd e) = j) es)))"
      by (rule sum.cong) (use v1 i in auto)
    also have "\<dots> = int (p i)" unfolding p_def using pos by (rule sum_label_counts)
    finally show ?thesis using v2 i True by simp
  next
    case False
    then have i0: "i = 0" by simp
    have "filter (\<lambda>e. nat (1 + snd e) = 0) es = []" using pos by (auto simp: filter_empty_conv)
    then have "os1 ! 0 = 0" using v1 by simp
    then show ?thesis using v2 i0 by (simp add: p_def)
  qed
  have os2: "os2 = map (\<lambda>c. int (p c)) [0..<Suc n]"
    by (rule nth_equalityI) (use l2 offs in \<open>auto simp del: upt_Suc\<close>)
  have ot: "Offsets tmpAddr = map Some os2" by (simp add: tmpAddr_def o2)
  have h2: "n \<le> length os2" using l2 by simp
  have h3: "\<forall>c<n. os2 ! c = int (p c)" using offs by simp
  have h4: "\<forall>e\<in>set es. 0 \<le> snd e \<and> nat (snd e) < n" using pos key by blast
  have pS: "p c + length (filter (\<lambda>e. nat (snd e) = c) es) = p (Suc c)" for c
    by (simp add: p_def length_filter_less_Suc)
  have h5: "\<forall>c<n. \<forall>c'<n. c < c' \<longrightarrow> p c + length (filter (\<lambda>e. nat (snd e) = c) es) \<le> p c'"
    unfolding pS by (auto simp: p_def intro: length_filter_less_mono)
  have dl: "length (Data cells2) = length es" by (simp add: d2 d1 d0)
  have h6: "\<forall>c<n. p c + length (filter (\<lambda>e. nat (snd e) = c) es) \<le> length (Data cells2)"
    unfolding pS dl by (simp add: p_def)
  have rr: "r = snd (fold (\<lambda>e. addFace (fst e) (snd e)) es (tmpAddr, cells2))"
    by (simp add: r_def forEachFaceLabel_events es_def [symmetric])
  note S = fold_addFace [OF ot h2 h3 h4 h5 h6, folded rr]
  from S have ro: "Offsets r = map Some os2" by (simp add: o2)
  from S have rl: "length (Data r) = length es" by (simp add: dl)
  from S have rv: "\<forall>c<n. \<forall>j<length (filter (\<lambda>e. nat (snd e) = c) es).
      Data r ! (p c + j) = Some (int (fst (filter (\<lambda>e. nat (snd e) = c) es ! j)))"
    by blast
  show "Offsets (snd (CreateCellFaces faceOwner faceNeigh)) =
      map (\<lambda>c. Some (int (length (filter (\<lambda>e. nat (snd e) < c) es)))) [0..<Suc (nat (M + 1))]"
    by (simp add: res ro os2 p_def n_def del: upt_Suc)
  show "length (Data (snd (CreateCellFaces faceOwner faceNeigh))) = length es"
    by (simp add: res rl)
  show "\<forall>c<nat (M + 1). GetCell (snd (CreateCellFaces faceOwner faceNeigh)) c =
      map (\<lambda>e. Some (int (fst e))) (filter (\<lambda>e. nat (snd e) = c) es)"
  proof (intro allI impI)
    fix c assume "c < nat (M + 1)"
    then have c: "c < n" by (simp add: n_def)
    let ?F = "filter (\<lambda>e. nat (snd e) = c) es"
    have a: "nat (the (Offsets r ! c)) = p c" using c l2 offs by (simp add: ro)
    have b: "nat (the (Offsets r ! Suc c)) = p c + length ?F"
      using c l2 offs [of "Suc c"] by (simp add: ro pS)
    have "\<forall>j<length ?F. Data r ! (p c + j) = (\<lambda>e. Some (int (fst e))) (?F ! j)"
      using rv c by simp
    then have "map (\<lambda>k. Data r ! k) [p c..<p c + length ?F] = map (\<lambda>e. Some (int (fst e))) ?F"
      by (rule map_nth_shift)
    then show "GetCell (snd (CreateCellFaces faceOwner faceNeigh)) c =
      map (\<lambda>e. Some (int (fst e))) ?F"
      by (simp add: res GetCell_def a b)
  qed
qed

text \<open>
  Claim C1, as stated, fails for an internal face whose owner and neighbour are the same
  cell: the face is written twice into the list of that cell and appears in the list of no
  other cell. For one cell with one such face the result is one cell whose faces are 0, 0.
\<close>

theorem CreateCellFaces_same_cell_counterexample:
  "length selfNeigh \<le> length selfOwner \<and>
   list_all (\<lambda>l. 0 \<le> l) (selfOwner @ selfNeigh) \<and>
   (0::nat) < length selfNeigh \<and>
   CreateCellFaces selfOwner selfNeigh =
     (1, \<lparr>Offsets = [Some 0, Some 2], Data = [Some 0, Some 0]\<rparr>) \<and>
   GetCell (snd (CreateCellFaces selfOwner selfNeigh)) 0 = [Some 0, Some 0]"
proof -
  have r: "CreateCellFaces selfOwner selfNeigh =
     (1, \<lparr>Offsets = [Some 0, Some 2], Data = [Some 0, Some 0]\<rparr>)"
    by (simp add: CreateCellFaces_def forEachFaceLabel_def faceLabels_def selfOwner_def
        selfNeigh_def countLabel_def countOffset_def addFace_def vtkIdType_def ResizeExact_def
        ResetOffsets_def IncrementOffset_def SetBodyValue_def SetOffset_def GetBeginOffset_def
        Let_def numeral_2_eq_2)
  show ?thesis
    by (simp add: r GetCell_def) (simp add: selfOwner_def selfNeigh_def upt_rec numeral_2_eq_2)
qed

text \<open>
  Claim C1, amended. For owner and neighbour arrays with at least as many owners as
  neighbours and labels from 0 to \<open>2^63 - 2\<close>, \<^verbatim>\<open>CreateCellFaces\<close> sets \<^verbatim>\<open>NumCells\<close> to one
  plus the largest label (to 0 when there is no face) and builds a list of that many cells
  with one entry for every owner and every neighbour. The faces of cell \<open>c\<close> are, in the
  order of the faces, those whose owner is \<open>c\<close> and the internal faces whose neighbour is
  \<open>c\<close>; an internal face with \<open>c\<close> on both sides is listed twice. Every label is a cell of
  the list. A face after the internal faces appears in the list of exactly one cell, its
  owner; an internal face appears in the lists of its owner and of its neighbour, which are
  two cells exactly when the two labels differ.
\<close>

theorem CreateCellFaces_cell_faces:
  assumes "length faceNeigh \<le> length faceOwner"
    and "\<forall>l\<in>set faceOwner \<union> set faceNeigh. 0 \<le> l \<and> l < 9223372036854775807"
  shows
    "fst (CreateCellFaces faceOwner faceNeigh) =
       (if faceOwner = [] then 0 else Max (set faceOwner \<union> set faceNeigh) + 1) \<and>
     GetNumberOfElements (snd (CreateCellFaces faceOwner faceNeigh)) =
       fst (CreateCellFaces faceOwner faceNeigh) \<and>
     length (Data (snd (CreateCellFaces faceOwner faceNeigh))) =
       length faceOwner + length faceNeigh \<and>
     (\<forall>c. 0 \<le> c \<and> c < fst (CreateCellFaces faceOwner faceNeigh) \<longrightarrow>
        GetCell (snd (CreateCellFaces faceOwner faceNeigh)) (nat c) =
          map (\<lambda>e. Some (int (fst e)))
            (filter (\<lambda>e. snd e = c) (faceLabels faceOwner faceNeigh)) \<and>
        (\<forall>f. Some (int f) \<in> set (GetCell (snd (CreateCellFaces faceOwner faceNeigh)) (nat c))
           \<longleftrightarrow> f < length faceOwner \<and>
               (faceOwner ! f = c \<or> f < length faceNeigh \<and> faceNeigh ! f = c))) \<and>
     (\<forall>f<length faceOwner.
        0 \<le> faceOwner ! f \<and> faceOwner ! f < fst (CreateCellFaces faceOwner faceNeigh)) \<and>
     (\<forall>f<length faceNeigh.
        0 \<le> faceNeigh ! f \<and> faceNeigh ! f < fst (CreateCellFaces faceOwner faceNeigh)) \<and>
     (\<forall>f<length faceOwner.
        {c. 0 \<le> c \<and> c < fst (CreateCellFaces faceOwner faceNeigh) \<and>
            Some (int f) \<in> set (GetCell (snd (CreateCellFaces faceOwner faceNeigh)) (nat c))} =
        (if f < length faceNeigh then {faceOwner ! f, faceNeigh ! f} else {faceOwner ! f}))"
proof -
  let ?fl = "faceLabels faceOwner faceNeigh"
  let ?r = "CreateCellFaces faceOwner faceNeigh"
  let ?M = "Max (insert (- 1) (snd ` set ?fl))"
  have labels: "snd ` set ?fl = set faceOwner \<union> set faceNeigh"
    using assms(1) by (rule snd_faceLabels)
  have nonneg: "\<forall>e\<in>set ?fl. 0 \<le> snd e" using assms(2) labels by auto
  then have es: "filter (\<lambda>e. 0 \<le> snd e) ?fl = ?fl" by simp
  have bound: "\<forall>e\<in>set (filter (\<lambda>e. 0 \<le> snd e) ?fl). snd e < 9223372036854775807"
    unfolding es using assms(2) labels by auto
  note R = CreateCellFaces_result [OF bound, unfolded es]
  have len: "length ?fl = length faceOwner + length faceNeigh"
    using assms(1) by (simp add: faceLabels_def length_concat o_def sum_list_triv)
  have n1: "fst ?r = ?M + 1" by (rule R(1))
  have M: "?M = (if faceOwner = [] then - 1 else Max (set faceOwner \<union> set faceNeigh))"
  proof (cases "faceOwner = []")
    case True
    then show ?thesis using assms(1) labels by simp
  next
    case False
    then have ne: "set faceOwner \<union> set faceNeigh \<noteq> {}" by simp
    have "0 \<le> Max (set faceOwner \<union> set faceNeigh)"
    proof -
      have "Max (set faceOwner \<union> set faceNeigh) \<in> set faceOwner \<union> set faceNeigh"
        by (rule Max_in) (use ne in simp_all)
      with assms(2) show ?thesis by blast
    qed
    then have "max (- 1) (Max (set faceOwner \<union> set faceNeigh)) =
        Max (set faceOwner \<union> set faceNeigh)"
      by simp
    moreover have "Max (insert (- 1) (set faceOwner \<union> set faceNeigh)) =
        max (- 1) (Max (set faceOwner \<union> set faceNeigh))"
      by (rule Max_insert) (use ne in simp_all)
    ultimately show ?thesis using False by (simp only: labels if_False)
  qed
  have c1: "fst ?r = (if faceOwner = [] then 0 else Max (set faceOwner \<union> set faceNeigh) + 1)"
    unfolding n1 M by simp
  have c2: "GetNumberOfElements (snd ?r) = fst ?r"
    using R(2) by (simp add: GetNumberOfElements_def R(3) n1 del: upt_Suc)
  have c3: "length (Data (snd ?r)) = length faceOwner + length faceNeigh"
    by (simp add: R(4) len)
  have inrange: "0 \<le> l \<and> l < fst ?r" if "l \<in> set faceOwner \<union> set faceNeigh" for l
  proof -
    from that labels have "l \<in> insert (- 1) (snd ` set ?fl)" by simp
    then have "l \<le> ?M" by (intro Max_ge) simp_all
    with assms(2) that show ?thesis by (simp add: n1)
  qed
  have c5: "\<forall>f<length faceOwner. 0 \<le> faceOwner ! f \<and> faceOwner ! f < fst ?r"
    using inrange by simp
  have c6: "\<forall>f<length faceNeigh. 0 \<le> faceNeigh ! f \<and> faceNeigh ! f < fst ?r"
    using inrange by simp
  have cell: "GetCell (snd ?r) (nat c) =
      map (\<lambda>e. Some (int (fst e))) (filter (\<lambda>e. snd e = c) ?fl)"
    if c: "0 \<le> c" "c < fst ?r" for c
  proof -
    have "nat c < nat (?M + 1)" using c by (simp add: n1)
    with R(5) have "GetCell (snd ?r) (nat c) =
        map (\<lambda>e. Some (int (fst e))) (filter (\<lambda>e. nat (snd e) = nat c) ?fl)"
      by blast
    moreover have "filter (\<lambda>e. nat (snd e) = nat c) ?fl = filter (\<lambda>e. snd e = c) ?fl"
      by (rule filter_cong) (use nonneg c in auto)
    ultimately show ?thesis by simp
  qed
  have mem: "Some (int f) \<in> set (GetCell (snd ?r) (nat c)) \<longleftrightarrow>
      f < length faceOwner \<and> (faceOwner ! f = c \<or> f < length faceNeigh \<and> faceNeigh ! f = c)"
    if c: "0 \<le> c" "c < fst ?r" for c f
  proof -
    have "Some (int f) \<in> set (GetCell (snd ?r) (nat c)) \<longleftrightarrow> (f, c) \<in> set ?fl"
      unfolding cell [OF c] by force
    also have "\<dots> \<longleftrightarrow> f < length faceOwner \<and>
        (c = faceOwner ! f \<or> f < length faceNeigh \<and> c = faceNeigh ! f)"
      using assms(1) by (rule faceLabels_member)
    finally show ?thesis by auto
  qed
  have c7: "{c. 0 \<le> c \<and> c < fst ?r \<and> Some (int f) \<in> set (GetCell (snd ?r) (nat c))} =
        (if f < length faceNeigh then {faceOwner ! f, faceNeigh ! f} else {faceOwner ! f})"
    if f: "f < length faceOwner" for f
  proof (cases "f < length faceNeigh")
    case True
    with c5 c6 f mem show ?thesis by auto
  next
    case False
    with c5 f mem show ?thesis by auto
  qed
  from c1 c2 c3 cell mem c5 c6 c7 show ?thesis by (intro conjI allI impI) blast+
qed

lemma pair_values:
  "length pairNeigh \<le> length pairOwner"
  "\<forall>l\<in>set pairOwner \<union> set pairNeigh. 0 \<le> l \<and> l < 9223372036854775807"
  "Max (set pairOwner \<union> set pairNeigh) = 1"
  "pairOwner \<noteq> []"
  "faceLabels pairOwner pairNeigh = [(0, 0), (0, 1), (1, 0), (2, 1)]"
  by (simp_all add: pairOwner_def pairNeigh_def faceLabels_def upt_rec numeral_eq_Suc)

theorem CreateCellFaces_cell_faces_witness:
  "length pairNeigh \<le> length pairOwner \<and>
   fst (CreateCellFaces pairOwner pairNeigh) = 2 \<and>
   GetCell (snd (CreateCellFaces pairOwner pairNeigh)) 0 = [Some 0, Some 1] \<and>
   GetCell (snd (CreateCellFaces pairOwner pairNeigh)) 1 = [Some 0, Some 2]"
proof -
  note T = CreateCellFaces_cell_faces [OF pair_values(1) pair_values(2)]
  from T have n: "fst (CreateCellFaces pairOwner pairNeigh) = 2"
    by (simp add: pair_values)
  note C = T [THEN conjunct2, THEN conjunct2, THEN conjunct2, THEN conjunct1, THEN spec,
      THEN mp, THEN conjunct1]
  have "GetCell (snd (CreateCellFaces pairOwner pairNeigh)) (nat 0) = [Some 0, Some 1]"
    using C [of 0] by (simp add: n pair_values)
  moreover have "GetCell (snd (CreateCellFaces pairOwner pairNeigh)) (nat 1) = [Some 0, Some 2]"
    using C [of 1] by (simp add: n pair_values)
  ultimately show ?thesis using n by (simp add: pair_values)
qed
end
